theory Spec2Isabelle
  imports Main "HOL-Library.Sublist" "HOL-Library.AList"
begin

section \<open>Python values and failures\<close>

text \<open>
  The exceptions that the modelled functions of \<^verbatim>\<open>supersenseFeatureExtractor.py\<close>
  can raise. A function that can raise returns \<open>error + 'a\<close>, with \<open>Inl\<close> the exception.
\<close>

datatype error = IndexError | KeyError | AttributeError | AssertionError | ValueError | TypeError

text \<open>
  \<^verbatim>\<open>xs[k]\<close> on a Python list: a negative \<open>k\<close> counts from the end, and an index outside
  \<open>-len .. len-1\<close> raises IndexError.
\<close>

definition list_item :: "'a list \<Rightarrow> int \<Rightarrow> error + 'a" where
  "list_item xs k =
     (if 0 \<le> k \<and> k < int (length xs) then Inr (xs ! nat k)
      else if k < 0 \<and> - int (length xs) \<le> k then Inr (xs ! nat (int (length xs) + k))
      else Inl IndexError)"

section \<open>SequentialStringIndexer: the feature alphabet\<close>

text \<open>
  A key given to the indexer is either an \<^verbatim>\<open>int\<close> (\<^verbatim>\<open>isinstance(k,int)\<close>) or a feature
  name. What \<^verbatim>\<open>indexer[k]\<close> gives back is a name (for an int) or an index (for a name).
\<close>

datatype 'n key = KInt int | KName 'n

datatype 'n item = Str 'n | Idx nat

datatype ('n, 'd) got = Found "'n item" | Default 'd

text \<open>
  The fields \<^verbatim>\<open>_s2i\<close>, \<^verbatim>\<open>_i2s\<close>, \<^verbatim>\<open>_frozen\<close>, \<^verbatim>\<open>_cutoff\<close>, \<^verbatim>\<open>_counts\<close> and \<^verbatim>\<open>_len\<close>.
  \<^verbatim>\<open>_counts\<close> is a \<^verbatim>\<open>Counter\<close> (a missing key reads as 0); the attribute exists only when
  a cutoff was given and until \<^verbatim>\<open>freeze\<close> deletes it, hence the option. \<^verbatim>\<open>_len\<close> exists
  only after \<^verbatim>\<open>freeze\<close>.
\<close>

record 'n indexer =
  s2i :: "'n \<rightharpoonup> nat"
  i2s :: "'n list"
  frozen :: bool
  cutoff :: "int option"
  counts :: "(int \<Rightarrow> int) option"
  len_cache :: "nat option"

definition ssi_init :: "int option \<Rightarrow> 'n indexer" where
  "ssi_init c =
     \<lparr> s2i = Map.empty, i2s = [], frozen = False, cutoff = c,
       counts = (if c \<noteq> None then Some (\<lambda>_. 0) else None), len_cache = None \<rparr>"

text \<open>\<^verbatim>\<open>{s: i for i,s in enumerate(self._i2s)}\<close>: a later entry overwrites an earlier one.\<close>

definition dict_of_enumerate :: "'n list \<Rightarrow> ('n \<rightharpoonup> nat)" where
  "dict_of_enumerate xs = foldl (\<lambda>m (i, s). m(s \<mapsto> i)) Map.empty (enumerate 0 xs)"

definition ssi_freeze :: "'n indexer \<Rightarrow> error + 'n indexer" where
  "ssi_freeze ix =
     (case cutoff ix of
        Some c \<Rightarrow>
          (case counts ix of
             None \<Rightarrow> Inl AttributeError
           | Some cnt \<Rightarrow>
               (let kept = map snd (filter (\<lambda>(i, s). cnt (int i) \<ge> c) (enumerate 0 (i2s ix)))
                in Inr (ix\<lparr> i2s := kept, counts := None, s2i := dict_of_enumerate kept,
                          frozen := True, len_cache := Some (length kept) \<rparr>)))
      | None \<Rightarrow> Inr (ix\<lparr> frozen := True, len_cache := Some (length (i2s ix)) \<rparr>))"

definition unfreeze :: "'n indexer \<Rightarrow> 'n indexer" where
  "unfreeze ix = ix\<lparr> frozen := False \<rparr>"

definition is_frozen :: "'n indexer \<Rightarrow> bool" where
  "is_frozen ix = frozen ix"

fun ssi_getitem :: "'n indexer \<Rightarrow> 'n key \<Rightarrow> error + 'n item" where
  "ssi_getitem ix (KInt k) =
     (case list_item (i2s ix) k of Inl e \<Rightarrow> Inl e | Inr s \<Rightarrow> Inr (Str s))"
| "ssi_getitem ix (KName s) =
     (case s2i ix s of None \<Rightarrow> Inl KeyError | Some i \<Rightarrow> Inr (Idx i))"

fun ssi_get :: "'n indexer \<Rightarrow> 'n key \<Rightarrow> 'd \<Rightarrow> error + ('n, 'd) got" where
  "ssi_get ix (KInt k) d =
     (if k \<ge> int (length (i2s ix)) then Inr (Default d)
      else (case list_item (i2s ix) k of Inl e \<Rightarrow> Inl e | Inr s \<Rightarrow> Inr (Found (Str s))))"
| "ssi_get ix (KName s) d =
     (case s2i ix s of None \<Rightarrow> Inr (Default d) | Some i \<Rightarrow> Inr (Found (Idx i)))"

fun ssi_contains :: "'n indexer \<Rightarrow> 'n key \<Rightarrow> error + bool" where
  "ssi_contains ix (KInt k) =
     (if k > 0 then Inr (k < int (length (i2s ix))) else Inl AssertionError)"
| "ssi_contains ix (KName s) = Inr (s2i ix s \<noteq> None)"

text \<open>
  The last statement of \<^verbatim>\<open>add\<close>: \<^verbatim>\<open>self._counts[i] += 1\<close> when the indexer is not frozen
  and has a cutoff.
\<close>

definition count_step :: "'n indexer \<Rightarrow> nat \<Rightarrow> error + 'n indexer" where
  "count_step ix i =
     (if \<not> is_frozen ix \<and> cutoff ix \<noteq> None then
        (case counts ix of
           None \<Rightarrow> Inl AttributeError
         | Some cnt \<Rightarrow> Inr (ix\<lparr> counts := Some (cnt(int i := cnt (int i) + 1)) \<rparr>))
      else Inr ix)"

definition ssi_add :: "'n indexer \<Rightarrow> 'n \<Rightarrow> error + 'n indexer" where
  "ssi_add ix s =
     (case ssi_contains ix (KName s) of
        Inl e \<Rightarrow> Inl e
      | Inr present \<Rightarrow>
          if \<not> present then
            (if is_frozen ix then Inl ValueError
             else (let i = length (i2s ix)
                   in count_step (ix\<lparr> s2i := (s2i ix)(s \<mapsto> i), i2s := i2s ix @ [s] \<rparr>) i))
          else if \<not> is_frozen ix \<and> cutoff ix \<noteq> None then
            (case s2i ix s of None \<Rightarrow> Inl KeyError | Some i \<Rightarrow> count_step ix i)
          else Inr ix)"

text \<open>
  \<^verbatim>\<open>setdefault(k)\<close> is called with a feature name; \<^verbatim>\<open>self[k]\<close> then reads \<^verbatim>\<open>_s2i\<close>.
\<close>

definition ssi_setdefault :: "'n indexer \<Rightarrow> 'n \<Rightarrow> error + (nat \<times> 'n indexer)" where
  "ssi_setdefault ix k =
     (case ssi_add ix k of
        Inl e \<Rightarrow> Inl e
      | Inr ix' \<Rightarrow> (case s2i ix' k of None \<Rightarrow> Inl KeyError | Some i \<Rightarrow> Inr (i, ix')))"

definition setcount :: "'n indexer \<Rightarrow> 'n key \<Rightarrow> int \<Rightarrow> error + 'n indexer" where
  "setcount ix k n =
     (case (case k of KInt i \<Rightarrow> Inr i
                    | KName s \<Rightarrow> (case s2i ix s of None \<Rightarrow> Inl KeyError | Some i \<Rightarrow> Inr (int i))) of
        Inl e \<Rightarrow> Inl e
      | Inr i \<Rightarrow> (case counts ix of
                    None \<Rightarrow> Inl AttributeError
                  | Some cnt \<Rightarrow> Inr (ix\<lparr> counts := Some (cnt(i := n)) \<rparr>)))"

text \<open>
  The calls that build an alphabet before \<^verbatim>\<open>freeze\<close>, and a run of them that stops at
  the first exception.
\<close>

datatype 'n call = Add 'n | SetDefault 'n | SetCount "'n key" int

fun ssi_call :: "'n indexer \<Rightarrow> 'n call \<Rightarrow> error + 'n indexer" where
  "ssi_call ix (Add s) = ssi_add ix s"
| "ssi_call ix (SetDefault s) =
     (case ssi_setdefault ix s of Inl e \<Rightarrow> Inl e | Inr (i, ix') \<Rightarrow> Inr ix')"
| "ssi_call ix (SetCount k n) = setcount ix k n"

fun ssi_calls :: "'n indexer \<Rightarrow> 'n call list \<Rightarrow> error + 'n indexer" where
  "ssi_calls ix [] = Inr ix"
| "ssi_calls ix (c # cs) = (case ssi_call ix c of Inl e \<Rightarrow> Inl e | Inr ix' \<Rightarrow> ssi_calls ix' cs)"

text \<open>
  The invariant of an alphabet that is still being built: \<^verbatim>\<open>_i2s\<close> has no duplicates,
  \<^verbatim>\<open>_s2i\<close> is its inverse, and the counter exists when a cutoff was given.
\<close>

definition alphabet_inv :: "'n indexer \<Rightarrow> bool" where
  "alphabet_inv ix \<longleftrightarrow>
     distinct (i2s ix) \<and> \<not> frozen ix \<and> (cutoff ix \<noteq> None \<longrightarrow> counts ix \<noteq> None) \<and>
     (\<forall>s i. s2i ix s = Some i \<longleftrightarrow> i < length (i2s ix) \<and> i2s ix ! i = s)"

section \<open>IndexedStringSet and IndexedFeatureMap: the sparse feature vector\<close>

text \<open>
  An \<^verbatim>\<open>IndexedFeatureMap\<close> holds the set \<^verbatim>\<open>_set._indices\<close> of active indices, the
  override map \<^verbatim>\<open>_map\<close> and the default value \<^verbatim>\<open>_default\<close>. The indexer \<^verbatim>\<open>_set._indexer\<close>
  is an object shared with other vectors, so it is passed beside the vector and
  returned updated.
\<close>

record ('n, 'v) feature_map =
  fm_indices :: "int set"
  fm_map :: "'n item \<rightharpoonup> 'v"
  fm_default :: 'v

definition ifm_init :: "'v \<Rightarrow> ('n, 'v) feature_map" where
  "ifm_init d = \<lparr> fm_indices = {}, fm_map = Map.empty, fm_default = d \<rparr>"

text \<open>\<^verbatim>\<open>IndexedStringSet.add\<close>: returns the new index set and the indexer.\<close>

fun iss_add :: "int set \<Rightarrow> 'n indexer \<Rightarrow> 'n key \<Rightarrow> error + (int set \<times> 'n indexer)" where
  "iss_add ind ix (KInt k) =
     (case ssi_contains ix (KInt k) of
        Inl e \<Rightarrow> Inl e
      | Inr ok \<Rightarrow> if ok then Inr (insert k ind, ix) else Inl AssertionError)"
| "iss_add ind ix (KName s) =
     (case ssi_setdefault ix s of
        Inl e \<Rightarrow> Inl e
      | Inr (i, ix') \<Rightarrow> Inr (insert (int i) ind, ix'))"

text \<open>\<^verbatim>\<open>IndexedStringSet.setdefault\<close>: \<^verbatim>\<open>self.add(k); return self._indexer[k]\<close>.\<close>

definition iss_setdefault ::
  "int set \<Rightarrow> 'n indexer \<Rightarrow> 'n key \<Rightarrow> error + ('n item \<times> int set \<times> 'n indexer)" where
  "iss_setdefault ind ix k =
     (case iss_add ind ix k of
        Inl e \<Rightarrow> Inl e
      | Inr (ind', ix') \<Rightarrow>
          (case ssi_getitem ix' k of Inl e \<Rightarrow> Inl e | Inr i \<Rightarrow> Inr (i, ind', ix')))"

text \<open>
  \<^verbatim>\<open>IndexedFeatureMap.__setitem__\<close>. The guard is
  \<^verbatim>\<open>not self._set._indexer.is_frozen() or k in self._set._indexer\<close>, evaluated left to right.
\<close>

definition ifm_setitem ::
  "('n, 'v) feature_map \<times> 'n indexer \<Rightarrow> 'n key \<Rightarrow> 'v \<Rightarrow> error + (('n, 'v) feature_map \<times> 'n indexer)" where
  "ifm_setitem st k v =
     (let fm = fst st; ix = snd st in
      case (if \<not> is_frozen ix then Inr True else ssi_contains ix k) of
        Inl e \<Rightarrow> Inl e
      | Inr guard \<Rightarrow>
          if guard then
            (case iss_setdefault (fm_indices fm) ix k of
               Inl e \<Rightarrow> Inl e
             | Inr (i, ind', ix') \<Rightarrow>
                 if v \<noteq> fm_default fm
                 then Inr (fm\<lparr> fm_indices := ind', fm_map := (fm_map fm)(i \<mapsto> v) \<rparr>, ix')
                 else Inr (fm\<lparr> fm_indices := ind' \<rparr>, ix'))
          else Inr (fm, ix))"

text \<open>A sequence of assignments \<^verbatim>\<open>fm[k] = v\<close>, stopping at the first exception.\<close>

fun setitems ::
  "('n, 'v) feature_map \<times> 'n indexer \<Rightarrow> ('n key \<times> 'v) list \<Rightarrow> error + (('n, 'v) feature_map \<times> 'n indexer)" where
  "setitems st [] = Inr st"
| "setitems st ((k, v) # kvs) =
     (case ifm_setitem st k v of Inl e \<Rightarrow> Inl e | Inr st' \<Rightarrow> setitems st' kvs)"

text \<open>\<^verbatim>\<open>IndexedFeatureMap.items\<close> at one active index: the override, or the default.\<close>

definition ifm_value :: "('n, 'v) feature_map \<Rightarrow> 'n item \<Rightarrow> 'v" where
  "ifm_value fm i = (case fm_map fm i of None \<Rightarrow> fm_default fm | Some v \<Rightarrow> v)"

section \<open>Trie: the prefix tree\<close>

text \<open>
  A node holds \<^verbatim>\<open>_map\<close> (item to child trie) and \<^verbatim>\<open>_vals\<close> (item ending a sequence to
  its value). Both are dicts, modelled as maps.
\<close>

datatype ('k, 'v) trie =
  Trie (tmap: "'k \<Rightarrow> ('k, 'v) trie option") (tvals: "'k \<Rightarrow> 'v option")

definition trie_init :: "('k, 'v) trie" where
  "trie_init = Trie (\<lambda>_. None) (\<lambda>_. None)"

text \<open>
  \<^verbatim>\<open>first, rest = seq[0], seq[1:]\<close> raises IndexError on an empty sequence, in each of
  the four methods.
\<close>

fun trie_setitem :: "('k, 'v) trie \<Rightarrow> 'k list \<Rightarrow> 'v \<Rightarrow> error + ('k, 'v) trie" where
  "trie_setitem t [] v = Inl IndexError"
| "trie_setitem t (first # rest) v =
     (if rest \<noteq> [] then
        (case trie_setitem (case tmap t first of None \<Rightarrow> trie_init | Some c \<Rightarrow> c) rest v of
           Inl e \<Rightarrow> Inl e
         | Inr c' \<Rightarrow> Inr (Trie ((tmap t)(first \<mapsto> c')) (tvals t)))
      else Inr (Trie (tmap t) ((tvals t)(first \<mapsto> v))))"

fun trie_contains :: "('k, 'v) trie \<Rightarrow> 'k list \<Rightarrow> error + bool" where
  "trie_contains t [] = Inl IndexError"
| "trie_contains t (first # rest) =
     (if rest \<noteq> [] then
        (case tmap t first of None \<Rightarrow> Inr False | Some c \<Rightarrow> trie_contains c rest)
      else Inr (tvals t first \<noteq> None))"

text \<open>
  \<^verbatim>\<open>get(seq)\<close> and \<^verbatim>\<open>longest(seq)\<close> with the default argument left at \<^verbatim>\<open>None\<close>, as
  the functions of the module call them: \<open>None\<close> below is Python's \<^verbatim>\<open>None\<close>.
\<close>

fun trie_get :: "('k, 'v) trie \<Rightarrow> 'k list \<Rightarrow> error + 'v option" where
  "trie_get t [] = Inl IndexError"
| "trie_get t (first # rest) =
     (if rest \<noteq> [] then
        (case tmap t first of None \<Rightarrow> Inr None | Some c \<Rightarrow> trie_get c rest)
      else Inr (tvals t first))"

fun trie_longest :: "('k, 'v) trie \<Rightarrow> 'k list \<Rightarrow> error + ('k list \<times> 'v) option" where
  "trie_longest t [] = Inl IndexError"
| "trie_longest t (first # rest) =
     (case (if rest \<noteq> [] then
              (case tmap t first of None \<Rightarrow> Inr None | Some c \<Rightarrow> trie_longest c rest)
            else Inr None) of
        Inl e \<Rightarrow> Inl e
      | Inr None \<Rightarrow>
          (case tvals t first of None \<Rightarrow> Inr None | Some v \<Rightarrow> Inr (Some ([first], v)))
      | Inr (Some longer) \<Rightarrow> Inr (Some (first # fst longer, snd longer)))"

text \<open>A run of assignments \<^verbatim>\<open>t[seq] = v\<close> on a fresh \<^verbatim>\<open>Trie()\<close>.\<close>

fun trie_setitems :: "('k, 'v) trie \<Rightarrow> ('k list \<times> 'v) list \<Rightarrow> error + ('k, 'v) trie" where
  "trie_setitems t [] = Inr t"
| "trie_setitems t ((k, v) # kvs) =
     (case trie_setitem t k v of Inl e \<Rightarrow> Inl e | Inr t' \<Rightarrow> trie_setitems t' kvs)"

text \<open>
  A session on a fresh trie: the assignments \<open>kvs\<close> in order, then one query, as the
  doctests of the class run them.
\<close>

definition longest_in :: "('k list \<times> 'v) list \<Rightarrow> 'k list \<Rightarrow> error + ('k list \<times> 'v) option" where
  "longest_in kvs seq =
     (case trie_setitems trie_init kvs of Inl e \<Rightarrow> Inl e | Inr t \<Rightarrow> trie_longest t seq)"

definition get_in :: "('k list \<times> 'v) list \<Rightarrow> 'k list \<Rightarrow> error + 'v option" where
  "get_in kvs seq =
     (case trie_setitems trie_init kvs of Inl e \<Rightarrow> Inl e | Inr t \<Rightarrow> trie_get t seq)"

text \<open>
  What a result \<open>r\<close> of \<^verbatim>\<open>longest\<close> has to be for the trie \<open>t\<close> and the sequence \<open>seq\<close>:
  no match when no non-empty prefix has a value, and otherwise a non-empty prefix with
  its value such that no longer prefix has one.
\<close>

definition longest_spec :: "('k, 'v) trie \<Rightarrow> 'k list \<Rightarrow> ('k list \<times> 'v) option \<Rightarrow> bool" where
  "longest_spec t seq r \<longleftrightarrow>
     (case r of
        None \<Rightarrow> (\<forall>q. q \<noteq> [] \<and> prefix q seq \<longrightarrow> trie_get t q = Inr None)
      | Some (p, v) \<Rightarrow> p \<noteq> [] \<and> prefix p seq \<and> trie_get t p = Inr (Some v) \<and>
          (\<forall>q. prefix q seq \<and> length p < length q \<longrightarrow> trie_get t q = Inr None))"

section \<open>The sense lexicon and the most-frequent-sense baseline\<close>

text \<open>
  \<^verbatim>\<open>senseTrie\<close> maps a tuple of stems to a dict from a coarse POS to the most frequent
  supersense. The functions below take the loaded trie as an argument: the module
  loads it on first use and never changes it afterwards.
\<close>

type_synonym lexicon = "(string, string \<rightharpoonup> string) trie"

text \<open>\<^verbatim>\<open>xs[:n]\<close>: a negative \<open>n\<close> counts from the end.\<close>

definition slice_to :: "'a list \<Rightarrow> int \<Rightarrow> 'a list" where
  "slice_to xs n = (if 0 \<le> n then take (nat n) xs else take (nat (int (length xs) + n)) xs)"

lemma trie_longest_length:
  "trie_longest t seq = Inr (Some (p, v)) \<Longrightarrow> length p \<le> length seq"
proof (induction seq arbitrary: t p v)
  case Nil
  then show ?case by simp
next
  case (Cons a rest)
  show ?case
  proof (cases "rest = [] \<or> tmap t a = None")
    case True
    then show ?thesis using Cons.prems by (auto split: option.splits)
  next
    case False
    then obtain c where c: "tmap t a = Some c" and r: "rest \<noteq> []" by auto
    show ?thesis
    proof (cases "trie_longest c rest")
      case (Inl e)
      then show ?thesis using Cons.prems c r by simp
    next
      case (Inr res)
      show ?thesis
      proof (cases res)
        case None
        then show ?thesis using Cons.prems c r Inr by (auto split: option.splits)
      next
        case (Some pv)
        then have "length (fst pv) \<le> length rest"
          using Cons.IH[of c "fst pv" "snd pv"] Inr by simp
        then show ?thesis using Cons.prems c r Inr Some by auto
      qed
    qed
  qed
qed

function getMostFrequentSensePrefix ::
  "lexicon \<Rightarrow> string list \<Rightarrow> string list \<Rightarrow> error + (string list \<times> string) option" where
  "getMostFrequentSensePrefix senseTrie stems coarse_poses =
     (case trie_longest senseTrie stems of
        Inl e \<Rightarrow> Inl e
      | Inr None \<Rightarrow> Inr None
      | Inr (Some (pfx, pos2sense)) \<Rightarrow>
          (case list_item coarse_poses 0 of
             Inl e \<Rightarrow> Inl e
           | Inr p0 \<Rightarrow>
               (case pos2sense p0 of
                  Some sense \<Rightarrow> Inr (Some (pfx, sense))
                | None \<Rightarrow>
                    (case list_item coarse_poses (- 1) of
                       Inl e \<Rightarrow> Inl e
                     | Inr pl \<Rightarrow>
                         (case pos2sense pl of
                            Some sense \<Rightarrow> Inr (Some (pfx, sense))
                          | None \<Rightarrow>
                              (if slice_to stems (int (length pfx) - 1) \<noteq> [] then
                                 getMostFrequentSensePrefix senseTrie
                                   (slice_to stems (int (length pfx) - 1))
                                   (slice_to coarse_poses (int (length pfx) - 1))
                               else Inr None))))))"
  by pat_completeness auto
termination
proof (relation "measure (\<lambda>(senseTrie, stems, coarse_poses). length stems)")
  show "wf (measure (\<lambda>(senseTrie :: lexicon, stems :: string list, coarse_poses :: string list). length stems))"
    by simp
next
  fix senseTrie :: lexicon and stems coarse_poses :: "string list"
    and res x y p0 pl
    and pfx :: "string list" and pos2sense :: "string \<rightharpoonup> string"
  assume l: "trie_longest senseTrie stems = Inr res" "res = Some x" "(pfx, pos2sense) = x"
    and ne: "slice_to stems (int (length pfx) - 1) \<noteq> []"
  from l have "trie_longest senseTrie stems = Inr (Some (pfx, pos2sense))" by simp
  from trie_longest_length[OF this] have "length pfx \<le> length stems" .
  moreover have "stems \<noteq> []" using ne by (auto simp: slice_to_def)
  ultimately have "length (slice_to stems (int (length pfx) - 1)) < length stems"
    by (cases pfx; cases stems) (auto simp: slice_to_def)
  then show "((senseTrie, slice_to stems (int (length pfx) - 1),
               slice_to coarse_poses (int (length pfx) - 1)),
              (senseTrie, stems, coarse_poses))
             \<in> measure (\<lambda>(senseTrie, stems, coarse_poses). length stems)"
    by simp
qed

declare getMostFrequentSensePrefix.simps [simp del]

text \<open>
  A token of the sentence: the attributes the extractor reads. The gold and predicted
  labels are read only by the previous-label feature.
\<close>

record tok =
  token :: string
  stem :: string
  pos :: string
  shape :: string

text \<open>\<^verbatim>\<open>[tok.pos[0] for tok in sent]\<close>: \<^verbatim>\<open>pos[0]\<close> raises IndexError on an empty tag.\<close>

fun first_chars :: "string list \<Rightarrow> error + string list" where
  "first_chars [] = Inr []"
| "first_chars (p # ps) =
     (case p of
        [] \<Rightarrow> Inl IndexError
      | c # _ \<Rightarrow> (case first_chars ps of Inl e \<Rightarrow> Inl e | Inr cs \<Rightarrow> Inr ([c] # cs)))"

text \<open>
  The \<^verbatim>\<open>while i < len(sent)\<close> loop of \<^verbatim>\<open>extractFirstSensePredictedLabels\<close>, with the
  loop variables \<open>i\<close> and \<open>res\<close>. The inner \<^verbatim>\<open>for word in wordParts[1:]\<close> appends one
  \<^verbatim>\<open>I-\<close> label and adds one to \<open>i\<close> for each further word.
\<close>

function efs_loop ::
  "lexicon \<Rightarrow> string list \<Rightarrow> string list \<Rightarrow> nat \<Rightarrow> string list \<Rightarrow> error + string list" where
  "efs_loop senseTrie stems coarse_poses i res =
     (if i < length stems then
        (case getMostFrequentSensePrefix senseTrie (drop i stems) (drop i coarse_poses) of
           Inl e \<Rightarrow> Inl e
         | Inr (Some (wordParts, mostFrequentSense)) \<Rightarrow>
             efs_loop senseTrie stems coarse_poses
               (i + 1 + length (tl wordParts))
               (res @ [''B-'' @ mostFrequentSense]
                    @ replicate (length (tl wordParts)) (''I-'' @ mostFrequentSense))
         | Inr None \<Rightarrow> efs_loop senseTrie stems coarse_poses (i + 1) (res @ [''O'']))
      else Inr res)"
  by pat_completeness auto
termination
  by (relation "measure (\<lambda>(senseTrie, stems, coarse_poses, i, res). length stems - i)") auto

declare efs_loop.simps [simp del]

definition extractFirstSensePredictedLabels :: "lexicon \<Rightarrow> tok list \<Rightarrow> error + string list" where
  "extractFirstSensePredictedLabels senseTrie sent =
     (case first_chars (map pos sent) of
        Inl e \<Rightarrow> Inl e
      | Inr coarse_poses \<Rightarrow> efs_loop senseTrie (map stem sent) coarse_poses 0 [])"

text \<open>
  A list of labels is well formed when each label is \<^verbatim>\<open>O\<close> or starts with \<^verbatim>\<open>B-\<close> or \<^verbatim>\<open>I-\<close>,
  and each label \<^verbatim>\<open>I-s\<close> comes right after \<^verbatim>\<open>B-s\<close> or \<^verbatim>\<open>I-s\<close>.
\<close>

definition bio_ok :: "string list \<Rightarrow> bool" where
  "bio_ok res \<longleftrightarrow>
     (\<forall>n<length res. res ! n = ''O'' \<or> (\<exists>s. res ! n = ''B-'' @ s) \<or> (\<exists>s. res ! n = ''I-'' @ s)) \<and>
     (\<forall>n<length res. \<forall>s. res ! n = ''I-'' @ s \<longrightarrow>
        0 < n \<and> (res ! (n - 1) = ''B-'' @ s \<or> res ! (n - 1) = ''I-'' @ s))"

section \<open>extractFeatureValues: the long-range POS-neighbor template\<close>

text \<open>\<^verbatim>\<open>coarsen(pos)\<close>: the one-character coarse tag; \<^verbatim>\<open>pos[0]\<close> raises on an empty tag.\<close>

definition coarsen :: "string \<Rightarrow> error + char" where
  "coarsen p =
     (if p = ''TO'' then Inr (CHR ''I'')
      else if take 3 p = ''NNP'' then Inr (CHR ''^'')
      else if p = ''CC'' then Inr (CHR ''&'')
      else if p = ''CD'' then Inr (CHR ''#'')
      else if p = ''RP'' then Inr (CHR ''T'')
      else (case p of [] \<Rightarrow> Inl IndexError | c # _ \<Rightarrow> Inr c))"

text \<open>\<^verbatim>\<open>''.join(coarsen(w.pos) for w in sent)\<close>: one character for each token.\<close>

fun coarsen_all :: "string list \<Rightarrow> error + string" where
  "coarsen_all [] = Inr []"
| "coarsen_all (p # ps) =
     (case coarsen p of
        Inl e \<Rightarrow> Inl e
      | Inr c \<Rightarrow> (case coarsen_all ps of Inl e \<Rightarrow> Inl e | Inr cs \<Rightarrow> Inr (c # cs)))"

text \<open>
  The allow-list of unordered pairs: \<^verbatim>\<open>{cpos,cposj}\<close> is compared with each listed set, so
  a pair matches in either order.
\<close>

definition allowed_pairs :: "(char \<times> char) list" where
  "allowed_pairs =
     [(CHR ''V'', CHR ''V''), (CHR ''V'', CHR ''N''), (CHR ''V'', CHR ''R''), (CHR ''V'', CHR ''T''),
      (CHR ''V'', CHR ''M''), (CHR ''V'', CHR ''P''), (CHR ''J'', CHR ''N''), (CHR ''N'', CHR ''N''),
      (CHR ''D'', CHR ''N''), (CHR ''D'', CHR ''^''), (CHR ''N'', CHR ''^''), (CHR ''^'', CHR ''^''),
      (CHR ''R'', CHR ''J''), (CHR ''N'', CHR ''&''), (CHR ''^'', CHR ''&''), (CHR ''V'', CHR ''I''),
      (CHR ''I'', CHR ''N'')]"

definition pair_allowed :: "char \<Rightarrow> char \<Rightarrow> bool" where
  "pair_allowed cpos cposj =
     list_ex (\<lambda>(x, y). (cpos = x \<and> cposj = y) \<or> (cpos = y \<and> cposj = x)) allowed_pairs"

text \<open>
  \<^verbatim>\<open>cpos in sentpos[:j]\<close> with \<^verbatim>\<open>sentpos.rindex(cpos,0,j)\<close>: the last position before \<open>j\<close>
  that holds \<open>cpos\<close>; and \<^verbatim>\<open>cpos in sentpos[j+1:]\<close> with \<^verbatim>\<open>sentpos.index(cpos,j+1)\<close>: the
  first position after \<open>j\<close>. \<open>None\<close> when the membership test fails.
\<close>

definition rindex_before :: "'a list \<Rightarrow> 'a \<Rightarrow> nat \<Rightarrow> nat option" where
  "rindex_before xs c j =
     (case filter (\<lambda>k. xs ! k = c) (rev [0..<min j (length xs)]) of
        [] \<Rightarrow> None
      | k # _ \<Rightarrow> Some k)"

definition index_after :: "'a list \<Rightarrow> 'a \<Rightarrow> nat \<Rightarrow> nat option" where
  "index_after xs c j =
     (case filter (\<lambda>k. xs ! k = c) [j + 1..<length xs] of
        [] \<Rightarrow> None
      | k # _ \<Rightarrow> Some k)"

text \<open>
  The bucketing of \<open>bindist\<close>, written twice in the source (left and right neighbor) with
  the same text. \<^verbatim>\<open>//\<close> is Python's floor division, as \<open>div\<close> on \<open>int\<close> is.
\<close>

definition bin_distance :: "int \<Rightarrow> int" where
  "bin_distance bindist =
     (if \<bar>bindist\<bar> > 5 then
        (if \<bar>bindist\<bar> < 10 then (if bindist > 0 then 6 else - 6)
         else (bindist div 10) * 10)
      else bindist)"

text \<open>
  The bucket as the specification words it, for comparison: magnitudes 6 to 9 collapse
  to 6, magnitudes from 10 round toward zero to a multiple of 10, and the sign is kept.
\<close>

definition bucket_toward_zero :: "int \<Rightarrow> int" where
  "bucket_toward_zero d =
     (if \<bar>d\<bar> > 5 then sgn d * (if \<bar>d\<bar> < 10 then 6 else (\<bar>d\<bar> div 10) * 10) else d)"

text \<open>\<^verbatim>\<open>'{}'.format(n)\<close> for an integer: decimal digits, with a minus sign when negative.\<close>

function str_nat :: "nat \<Rightarrow> string" where
  "str_nat n = (if n < 10 then [''0123456789'' ! n]
                else str_nat (n div 10) @ [''0123456789'' ! (n mod 10)])"
  by pat_completeness auto
termination
  by (relation "measure id") auto

declare str_nat.simps [simp del]

definition str_int :: "int \<Rightarrow> string" where
  "str_int i = (if i < 0 then CHR ''-'' # str_nat (nat (- i)) else str_nat (nat i))"

text \<open>
  The body of \<^verbatim>\<open>for cpos in 'VN^ITPJRDM#&'\<close> for one \<open>cpos\<close>: the feature names it sets
  (each to 1), in order. A feature name is a tuple of strings.
\<close>

definition neighbor_features ::
  "bool \<Rightarrow> tok list \<Rightarrow> string \<Rightarrow> nat \<Rightarrow> char \<Rightarrow> char \<Rightarrow> string list list" where
  "neighbor_features useBigramFeatures sent sentpos j cposj cpos =
     (if \<not> pair_allowed cpos cposj then []
      else
        (case rindex_before sentpos cpos j of
           None \<Rightarrow> []
         | Some k \<Rightarrow>
             (let bindist = bin_distance (int k - int j) in
              [[[cpos], ''<-'' @ str_int bindist, [cposj]],
               [[cpos], ''<'', stem (sent ! k), [cposj]]] @
              (if useBigramFeatures \<and> \<bar>bindist\<bar> < 6 then
                 [[[cpos], ''<-'' @ str_int bindist, stem (sent ! j)],
                  [[cpos], ''<'', stem (sent ! k), stem (sent ! j)]]
               else []))) @
        (case index_after sentpos cpos j of
           None \<Rightarrow> []
         | Some k \<Rightarrow>
             (let bindist = bin_distance (int k - int j) in
              [[[cpos], str_int bindist @ ''->'', [cposj]],
               [[cpos], ''>'', stem (sent ! k), [cposj]]] @
              (if useBigramFeatures \<and> \<bar>bindist\<bar> < 6 then
                 [[[cpos], str_int bindist @ ''->'', stem (sent ! j)],
                  [[cpos], ''>'', stem (sent ! k), stem (sent ! j)]]
               else []))))"

text \<open>
  The block under \<^verbatim>\<open>if _options['usePOSNeighborFeatures']\<close> for the token at position
  \<open>j\<close>; \<^verbatim>\<open>sent[j]\<close> raises IndexError when \<open>j\<close> is not a position of the sentence.
\<close>

definition pos_neighbor_features :: "bool \<Rightarrow> tok list \<Rightarrow> nat \<Rightarrow> error + string list list" where
  "pos_neighbor_features useBigramFeatures sent j =
     (case coarsen_all (map pos sent) of
        Inl e \<Rightarrow> Inl e
      | Inr sentpos \<Rightarrow>
          if j < length sent then
            Inr (concat (map (neighbor_features useBigramFeatures sent sentpos j (sentpos ! j))
                           ''VN^ITPJRDM#&''))
          else Inl IndexError)"

section \<open>Loading the sense data\<close>

text \<open>
  The module's global tables: \<^verbatim>\<open>senseTrie\<close> (\<open>None\<close> until a loader assigns it),
  \<^verbatim>\<open>senseCountMap\<close> (POS to phrase to number of senses) and \<^verbatim>\<open>possibleSensesMap\<close> (word to
  set of labels). The two dicts that the loaders test for emptiness are association
  lists, updated in place of an existing key. The loaders read gzip files; a file is
  given as the list of its lines, each with its line terminator.
\<close>

record lex_state =
  g_senseTrie :: "lexicon option"
  g_senseCountMap :: "(string \<times> (string list \<times> int) list) list"
  g_possibleSensesMap :: "(string \<times> string set) list"

definition lex_init :: lex_state where
  "lex_init = \<lparr> g_senseTrie = None, g_senseCountMap = [], g_possibleSensesMap = [] \<rparr>"

text \<open>
  \<^verbatim>\<open>s.split(sep)\<close> for a one-character separator and \<^verbatim>\<open>re.split(r'\s', s)\<close>: a cut at every
  separator character, so the result has at least one element.
\<close>

fun split_where :: "(char \<Rightarrow> bool) \<Rightarrow> string \<Rightarrow> string list" where
  "split_where P [] = [[]]"
| "split_where P (c # cs) =
     (if P c then [] # split_where P cs
      else (case split_where P cs of [] \<Rightarrow> [[c]] | x # xs \<Rightarrow> (c # x) # xs))"

definition is_space :: "char \<Rightarrow> bool" where
  "is_space c \<longleftrightarrow> c \<in> set [CHR '' '', CHR 0x09, CHR 0x0A, CHR 0x0B, CHR 0x0C, CHR 0x0D]"

text \<open>\<^verbatim>\<open>_addMostFrequentSense\<close>. With \<^verbatim>\<open>senseTrie\<close> still \<^verbatim>\<open>None\<close>, \<^verbatim>\<open>phrase not in senseTrie\<close>
  raises TypeError. The dict found for a known phrase is updated in place.\<close>

definition addMostFrequentSense ::
  "lex_state \<Rightarrow> string list \<Rightarrow> string \<Rightarrow> string \<Rightarrow> int \<Rightarrow> error + lex_state" where
  "addMostFrequentSense st phrase simplePOS sense numSenses =
     (case g_senseTrie st of
        None \<Rightarrow> Inl TypeError
      | Some t \<Rightarrow>
          (case trie_contains t phrase of
             Inl e \<Rightarrow> Inl e
           | Inr present \<Rightarrow>
               (case (if \<not> present then trie_setitem t phrase [simplePOS \<mapsto> sense]
                      else (case trie_get t phrase of
                              Inl e \<Rightarrow> Inl e
                            | Inr None \<Rightarrow> Inl TypeError
                            | Inr (Some d) \<Rightarrow> trie_setitem t phrase (d(simplePOS \<mapsto> sense)))) of
                  Inl e \<Rightarrow> Inl e
                | Inr t' \<Rightarrow>
                    Inr (st\<lparr> g_senseTrie := Some t',
                             g_senseCountMap :=
                               AList.update simplePOS
                                 (AList.update phrase numSenses
                                    (case map_of (g_senseCountMap st) simplePOS of
                                       None \<Rightarrow> [] | Some m \<Rightarrow> m))
                                 (g_senseCountMap st) \<rparr>))))"

text \<open>
  \<^verbatim>\<open>tmp = possibleSensesMap.get(w, set()); tmp.add(label); possibleSensesMap[w] = tmp\<close>.
\<close>

definition add_possible ::
  "(string \<times> string set) list \<Rightarrow> string \<Rightarrow> string \<Rightarrow> (string \<times> string set) list" where
  "add_possible psm w label =
     AList.update w (insert label (case map_of psm w of None \<Rightarrow> {} | Some s \<Rightarrow> s)) psm"

text \<open>
  One line of \<^verbatim>\<open>_loadSenseFileOriginalFormat\<close>. \<^verbatim>\<open>range(2,len(parts),spacing)\<close> is the
  list of the \<open>i\<close> from 2 below \<open>len(parts)\<close> with \<open>i - 2\<close> a multiple of \<open>spacing\<close>.
\<close>

definition original_line :: "nat \<Rightarrow> string \<Rightarrow> lex_state \<Rightarrow> string \<Rightarrow> error + lex_state" where
  "original_line spacing shortPOS st ln0 =
     (let ln = butlast ln0 in
      if ln = [] then Inr st
      else
        (let parts = split_where is_space ln in
         case list_item parts 2 of
           Inl e \<Rightarrow> Inl e
         | Inr sense \<Rightarrow>
             (let numSenses = (int (length parts) - 1) div int spacing;
                  wordParts = split_where (\<lambda>c. c = CHR ''_'') (parts ! 0)
              in case addMostFrequentSense st wordParts shortPOS sense numSenses of
                   Inl e \<Rightarrow> Inl e
                 | Inr st' \<Rightarrow>
                     Inr (st'\<lparr> g_possibleSensesMap :=
                            foldl (\<lambda>psm i.
                                     foldl (\<lambda>psm j.
                                              add_possible psm (wordParts ! j)
                                                ((if j = 0 then ''B-'' else ''I-'') @ parts ! i))
                                       psm [0..<length wordParts])
                              (g_possibleSensesMap st')
                              (filter (\<lambda>i. (i - 2) mod spacing = 0) [2..<length parts]) \<rparr>))))"

fun loadSenseFileOriginalFormat :: "lex_state \<Rightarrow> string list \<Rightarrow> string \<Rightarrow> error + lex_state" where
  "loadSenseFileOriginalFormat st [] shortPOS = Inr st"
| "loadSenseFileOriginalFormat st (ln # lns) shortPOS =
     (case original_line (if shortPOS = ''V'' then 2 else 3) shortPOS st ln of
        Inl e \<Rightarrow> Inl e
      | Inr st' \<Rightarrow> loadSenseFileOriginalFormat st' lns shortPOS)"

text \<open>
  \<^verbatim>\<open>loadSenseDataOriginalFormat\<close>, given the lines of the noun file and of the verb file.
  A \<^verbatim>\<open>Trie\<close> object is truthy, so \<^verbatim>\<open>assert not senseTrie\<close> passes only on \<^verbatim>\<open>None\<close>.
\<close>

definition loadSenseDataOriginalFormat :: "lex_state \<Rightarrow> string list \<Rightarrow> string list \<Rightarrow> error + lex_state" where
  "loadSenseDataOriginalFormat st nounFile verbFile =
     (if g_senseTrie st \<noteq> None then Inl AssertionError
      else if g_possibleSensesMap st \<noteq> [] then Inl AssertionError
      else if g_senseCountMap st \<noteq> [] then Inl AssertionError
      else (case loadSenseFileOriginalFormat (st\<lparr> g_senseTrie := Some trie_init \<rparr>) nounFile ''N'' of
              Inl e \<Rightarrow> Inl e
            | Inr st' \<Rightarrow> loadSenseFileOriginalFormat st' verbFile ''V''))"

text \<open>
  One line of a noun or verb file in \<^verbatim>\<open>loadSenseDataNewFormat\<close>. The first statement of
  the \<^verbatim>\<open>try\<close> body evaluates \<^verbatim>\<open>parts[1]\<close>, which raises IndexError on a line with no tab
  (the handler prints and re-raises), and then \<^verbatim>\<open>parts[1].indexOf('=')\<close>: a Python string
  has no attribute \<^verbatim>\<open>indexOf\<close>, so this raises AttributeError, which the handler does not
  catch. No run reaches the statements after it (the second \<^verbatim>\<open>indexOf\<close>, \<^verbatim>\<open>int(...)\<close> and
  the call of \<^verbatim>\<open>_addMostFrequentSense\<close>).
\<close>

definition new_format_line :: "string \<Rightarrow> lex_state \<Rightarrow> string \<Rightarrow> error + lex_state" where
  "new_format_line simplePOS st ln =
     (let parts = split_where (\<lambda>c. c = CHR 0x09) (butlast ln) in
      case list_item parts 1 of
        Inl e \<Rightarrow> Inl e
      | Inr p1 \<Rightarrow> Inl AttributeError)"

fun new_format_file :: "string \<Rightarrow> lex_state \<Rightarrow> string list \<Rightarrow> error + lex_state" where
  "new_format_file simplePOS st [] = Inr st"
| "new_format_file simplePOS st (ln # lns) =
     (case new_format_line simplePOS st ln of
        Inl e \<Rightarrow> Inl e
      | Inr st' \<Rightarrow> new_format_file simplePOS st' lns)"

text \<open>One line of the possible-senses gazetteer of the new format.\<close>

definition possible_senses_line ::
  "(string \<times> string set) list \<Rightarrow> string \<Rightarrow> (string \<times> string set) list" where
  "possible_senses_line psm ln =
     (let parts = split_where (\<lambda>c. c = CHR 0x09) (butlast ln);
          wordParts = split_where (\<lambda>c. c = CHR ''_'') (parts ! 0)
      in foldl (\<lambda>psm j.
                  AList.update (wordParts ! j)
                    ((case map_of psm (wordParts ! j) of None \<Rightarrow> {} | Some s \<Rightarrow> s) \<union>
                     set (map (\<lambda>p. (if j = 0 then ''B-'' else ''I-'') @ p) (tl parts)))
                    psm)
           psm [0..<length wordParts])"

text \<open>
  \<^verbatim>\<open>loadSenseDataNewFormat\<close>, given the lines of the noun file, of the verb file and of
  the possible-senses file (\<open>None\<close> when opening it raises IOError, which is caught). The
  function neither declares \<^verbatim>\<open>senseTrie\<close> global nor assigns it.
\<close>

definition loadSenseDataNewFormat ::
  "lex_state \<Rightarrow> string list \<Rightarrow> string list \<Rightarrow> string list option \<Rightarrow> error + lex_state" where
  "loadSenseDataNewFormat st nounFile verbFile possibleSensesFile =
     (if g_possibleSensesMap st \<noteq> [] then Inl AssertionError
      else if g_senseCountMap st \<noteq> [] then Inl AssertionError
      else (case new_format_file ''N'' st nounFile of
              Inl e \<Rightarrow> Inl e
            | Inr st1 \<Rightarrow>
                (case new_format_file ''V'' st1 verbFile of
                   Inl e \<Rightarrow> Inl e
                 | Inr st2 \<Rightarrow>
                     (case possibleSensesFile of
                        None \<Rightarrow> Inr st2
                      | Some lns \<Rightarrow>
                          Inr (st2\<lparr> g_possibleSensesMap :=
                                 foldl possible_senses_line (g_possibleSensesMap st2) lns \<rparr>)))))"

section \<open>Properties of the feature alphabet\<close>

lemma inv_init: "alphabet_inv (ssi_init c)"
  by (simp add: alphabet_inv_def ssi_init_def)

lemma inv_in_set: "alphabet_inv ix \<Longrightarrow> s2i ix s \<noteq> None \<longleftrightarrow> s \<in> set (i2s ix)"
  by (auto simp: alphabet_inv_def in_set_conv_nth)

lemma upd_positions:
  assumes "distinct xs" "s \<notin> set xs"
    and "\<forall>t i. m t = Some i \<longleftrightarrow> i < length xs \<and> xs ! i = t"
  shows "(m(s \<mapsto> length xs)) t = Some i \<longleftrightarrow> i < length (xs @ [s]) \<and> (xs @ [s]) ! i = t"
  using assms by (auto simp: nth_append less_Suc_eq)

lemma add_present:
  "s2i ix s = Some i \<Longrightarrow> \<not> frozen ix \<Longrightarrow>
     ssi_add ix s = (if cutoff ix \<noteq> None then count_step ix i else Inr ix)"
  by (simp add: ssi_add_def is_frozen_def)

lemma add_absent:
  "s2i ix s = None \<Longrightarrow> \<not> frozen ix \<Longrightarrow>
     ssi_add ix s =
       count_step (ix\<lparr> s2i := (s2i ix)(s \<mapsto> length (i2s ix)), i2s := i2s ix @ [s] \<rparr>) (length (i2s ix))"
  by (simp add: ssi_add_def is_frozen_def Let_def)

lemma count_step_inv:
  assumes "alphabet_inv ix"
  shows "\<exists>ix'. count_step ix i = Inr ix' \<and> alphabet_inv ix' \<and> cutoff ix' = cutoff ix \<and>
           i2s ix' = i2s ix \<and> s2i ix' = s2i ix"
proof (cases "counts ix")
  case None
  then have "cutoff ix = None" using assms by (auto simp: alphabet_inv_def)
  then show ?thesis using assms by (simp add: count_step_def)
next
  case (Some cnt)
  then show ?thesis using assms by (simp add: count_step_def is_frozen_def alphabet_inv_def)
qed

lemma add_step:
  assumes "alphabet_inv ix"
  shows "\<exists>ix'. ssi_add ix s = Inr ix' \<and> alphabet_inv ix' \<and> cutoff ix' = cutoff ix \<and>
           i2s ix' = (if s \<in> set (i2s ix) then i2s ix else i2s ix @ [s]) \<and>
           s2i ix' = (if s \<in> set (i2s ix) then s2i ix else (s2i ix)(s \<mapsto> length (i2s ix)))"
proof (cases "s \<in> set (i2s ix)")
  case True
  then obtain i where i: "s2i ix s = Some i" using inv_in_set[OF assms, of s] by auto
  have nf: "\<not> frozen ix" using assms by (simp add: alphabet_inv_def)
  show ?thesis
    using count_step_inv[OF assms, of i] True assms by (auto simp: add_present[OF i nf])
next
  case False
  then have n: "s2i ix s = None" using inv_in_set[OF assms, of s] by auto
  have nf: "\<not> frozen ix" using assms by (simp add: alphabet_inv_def)
  have d: "distinct (i2s ix)" and p: "\<forall>t i. s2i ix t = Some i \<longleftrightarrow> i < length (i2s ix) \<and> i2s ix ! i = t"
    using assms by (auto simp: alphabet_inv_def)
  let ?ix1 = "ix\<lparr> s2i := (s2i ix)(s \<mapsto> length (i2s ix)), i2s := i2s ix @ [s] \<rparr>"
  have "alphabet_inv ?ix1"
    unfolding alphabet_inv_def using upd_positions[OF d False p] d False assms
    by (simp add: alphabet_inv_def)
  from count_step_inv[OF this, of "length (i2s ix)"] show ?thesis
    using False by (auto simp: add_absent[OF n nf])
qed

lemma setcount_step:
  assumes "alphabet_inv ix" "setcount ix k n = Inr ix'"
  shows "alphabet_inv ix' \<and> cutoff ix' = cutoff ix \<and> i2s ix' = i2s ix"
  using assms by (auto simp: setcount_def alphabet_inv_def split: sum.splits option.splits key.splits)

lemma call_step:
  assumes "alphabet_inv ix" "ssi_call ix c = Inr ix'"
  shows "alphabet_inv ix' \<and> cutoff ix' = cutoff ix \<and> prefix (i2s ix) (i2s ix')"
proof (cases c)
  case (Add s)
  then show ?thesis using add_step[OF assms(1), of s] assms(2) by (auto split: if_splits)
next
  case (SetDefault s)
  then show ?thesis using add_step[OF assms(1), of s] assms(2)
    by (auto simp: ssi_setdefault_def split: if_splits sum.splits option.splits)
next
  case (SetCount k n)
  then show ?thesis using setcount_step[OF assms(1), of k n ix'] assms(2) by simp
qed

lemma calls_inv:
  "alphabet_inv ix \<Longrightarrow> ssi_calls ix cs = Inr ix' \<Longrightarrow>
     alphabet_inv ix' \<and> cutoff ix' = cutoff ix \<and> prefix (i2s ix) (i2s ix')"
proof (induction cs arbitrary: ix)
  case Nil
  then show ?case by simp
next
  case (Cons c cs)
  from Cons.prems(2) obtain ix1 where s1: "ssi_call ix c = Inr ix1" and r: "ssi_calls ix1 cs = Inr ix'"
    by (auto split: sum.splits)
  from call_step[OF Cons.prems(1) s1] Cons.IH[OF _ r]
  show ?case by (auto intro: prefix_order.trans)
qed

lemma dict_of_enumerate_snoc:
  "dict_of_enumerate (xs @ [x]) = (dict_of_enumerate xs)(x \<mapsto> length xs)"
  by (simp add: dict_of_enumerate_def enumerate_append_eq)

lemma dict_of_enumerate_positions:
  "distinct xs \<Longrightarrow> dict_of_enumerate xs s = Some i \<longleftrightarrow> i < length xs \<and> xs ! i = s"
proof (induction xs arbitrary: s i rule: rev_induct)
  case Nil
  then show ?case by (simp add: dict_of_enumerate_def)
next
  case (snoc x xs)
  then have d: "distinct xs" and nx: "x \<notin> set xs" by auto
  have p: "\<forall>t i. dict_of_enumerate xs t = Some i \<longleftrightarrow> i < length xs \<and> xs ! i = t"
    using snoc.IH[OF d] by blast
  show ?case unfolding dict_of_enumerate_snoc using upd_positions[OF d nx p] by blast
qed

lemma kept_subseq:
  "subseq (map snd (filter P (enumerate n xs))) xs"
proof -
  have "subseq (map snd (filter P (enumerate n xs))) (map snd (enumerate n xs))"
    by (rule subseq_map) simp
  then show ?thesis by simp
qed

lemma kept_member:
  "s \<in> set (map snd (filter (\<lambda>(i, s). P i) (enumerate 0 xs))) \<Longrightarrow> \<exists>i<length xs. xs ! i = s \<and> P i"
  by (auto simp: in_set_enumerate_eq)

lemma freeze_cutoff:
  assumes "alphabet_inv ix" "cutoff ix = Some C"
  shows "\<exists>ix' cnt. ssi_freeze ix = Inr ix' \<and> counts ix = Some cnt \<and> frozen ix' \<and>
           subseq (i2s ix') (i2s ix) \<and> distinct (i2s ix') \<and>
           (\<forall>s\<in>set (i2s ix'). \<exists>i. s2i ix s = Some i \<and> cnt (int i) \<ge> C) \<and>
           (\<forall>s j. s2i ix' s = Some j \<longleftrightarrow> j < length (i2s ix') \<and> i2s ix' ! j = s)"
proof -
  from assms obtain cnt where c: "counts ix = Some cnt" by (auto simp: alphabet_inv_def)
  define kept where "kept = map snd (filter (\<lambda>(i, s). cnt (int i) \<ge> C) (enumerate 0 (i2s ix)))"
  have sub: "subseq kept (i2s ix)" unfolding kept_def by (rule kept_subseq)
  have d: "distinct kept" unfolding kept_def using assms(1)
    by (intro distinct_map_filter) (simp add: alphabet_inv_def)
  have m: "\<forall>s\<in>set kept. \<exists>i. s2i ix s = Some i \<and> cnt (int i) \<ge> C"
  proof
    fix s assume "s \<in> set kept"
    then obtain i where "i < length (i2s ix)" "i2s ix ! i = s" "cnt (int i) \<ge> C"
      unfolding kept_def using kept_member[of s "\<lambda>i. cnt (int i) \<ge> C" "i2s ix"] by blast
    then show "\<exists>i. s2i ix s = Some i \<and> cnt (int i) \<ge> C"
      using assms(1) by (auto simp: alphabet_inv_def)
  qed
  have f: "ssi_freeze ix = Inr (ix\<lparr> i2s := kept, counts := None, s2i := dict_of_enumerate kept,
                          frozen := True, len_cache := Some (length kept) \<rparr>)"
    using assms(2) c by (simp add: ssi_freeze_def kept_def Let_def)
  show ?thesis using f c sub d m dict_of_enumerate_positions[OF d] by simp
qed

text \<open>
  C6. Built from an empty indexer by calls of \<^verbatim>\<open>add\<close>, \<^verbatim>\<open>setdefault\<close> and \<^verbatim>\<open>setcount\<close>, an
  alphabet lists its symbols without repetition, and the index of a symbol is its
  position in that list: \<^verbatim>\<open>add\<close> of a new symbol appends it, so it gets the number of
  symbols added before it (0 for the first), and \<^verbatim>\<open>add\<close> of a known symbol changes no
  index. Further calls only extend the list, so indices are stable and increase in
  insertion order. With a cutoff \<open>C\<close>, \<^verbatim>\<open>freeze\<close> succeeds; the symbols it keeps are a
  subsequence of the old list (relative order preserved), each had a count of at least
  \<open>C\<close> at its old index, and the new index of a symbol is again its position, 0 upwards.
\<close>

theorem alphabet_monotonicity:
  assumes "ssi_calls (ssi_init c) cs = Inr ix"
  shows "distinct (i2s ix) \<and>
         (\<forall>s i. s2i ix s = Some i \<longleftrightarrow> i < length (i2s ix) \<and> i2s ix ! i = s) \<and>
         (\<forall>s. \<exists>ix'. ssi_add ix s = Inr ix' \<and>
                i2s ix' = (if s \<in> set (i2s ix) then i2s ix else i2s ix @ [s]) \<and>
                s2i ix' = (if s \<in> set (i2s ix) then s2i ix else (s2i ix)(s \<mapsto> length (i2s ix)))) \<and>
         (\<forall>cs' ix'. ssi_calls ix cs' = Inr ix' \<longrightarrow> prefix (i2s ix) (i2s ix')) \<and>
         (\<forall>C. c = Some C \<longrightarrow>
            (\<exists>ix' cnt. ssi_freeze ix = Inr ix' \<and> counts ix = Some cnt \<and>
               subseq (i2s ix') (i2s ix) \<and>
               (\<forall>s\<in>set (i2s ix'). \<exists>i. s2i ix s = Some i \<and> cnt (int i) \<ge> C) \<and>
               (\<forall>s j. s2i ix' s = Some j \<longleftrightarrow> j < length (i2s ix') \<and> i2s ix' ! j = s)))"
proof -
  from calls_inv[OF inv_init assms] have inv: "alphabet_inv ix" and co: "cutoff ix = c"
    by (simp_all add: ssi_init_def)
  have 1: "distinct (i2s ix)"
    and 2: "\<forall>s i. s2i ix s = Some i \<longleftrightarrow> i < length (i2s ix) \<and> i2s ix ! i = s"
    using inv by (simp_all add: alphabet_inv_def)
  have 3: "\<forall>s. \<exists>ix'. ssi_add ix s = Inr ix' \<and>
                i2s ix' = (if s \<in> set (i2s ix) then i2s ix else i2s ix @ [s]) \<and>
                s2i ix' = (if s \<in> set (i2s ix) then s2i ix else (s2i ix)(s \<mapsto> length (i2s ix)))"
    using add_step[OF inv] by blast
  have 4: "\<forall>cs' ix'. ssi_calls ix cs' = Inr ix' \<longrightarrow> prefix (i2s ix) (i2s ix')"
    using calls_inv[OF inv] by blast
  have 5: "\<forall>C. c = Some C \<longrightarrow>
            (\<exists>ix' cnt. ssi_freeze ix = Inr ix' \<and> counts ix = Some cnt \<and>
               subseq (i2s ix') (i2s ix) \<and>
               (\<forall>s\<in>set (i2s ix'). \<exists>i. s2i ix s = Some i \<and> cnt (int i) \<ge> C) \<and>
               (\<forall>s j. s2i ix' s = Some j \<longleftrightarrow> j < length (i2s ix') \<and> i2s ix' ! j = s))"
  proof (intro allI impI)
    fix C assume "c = Some C"
    then have "cutoff ix = Some C" using co by simp
    from freeze_cutoff[OF inv this] show "\<exists>ix' cnt. ssi_freeze ix = Inr ix' \<and> counts ix = Some cnt \<and>
               subseq (i2s ix') (i2s ix) \<and>
               (\<forall>s\<in>set (i2s ix'). \<exists>i. s2i ix s = Some i \<and> cnt (int i) \<ge> C) \<and>
               (\<forall>s j. s2i ix' s = Some j \<longleftrightarrow> j < length (i2s ix') \<and> i2s ix' ! j = s)"
      by blast
  qed
  from 1 2 3 4 5 show ?thesis by blast
qed

theorem alphabet_monotonicity_witness:
  "case ssi_calls (ssi_init (Some 2)) [Add ''a'', Add ''a'', Add ''b'', SetDefault ''a''] of
     Inl e \<Rightarrow> False
   | Inr ix \<Rightarrow>
       i2s ix = [''a'', ''b''] \<and> s2i ix ''a'' = Some 0 \<and> s2i ix ''b'' = Some 1 \<and>
       distinct (i2s ix) \<and>
       (\<exists>ix' cnt. ssi_freeze ix = Inr ix' \<and> counts ix = Some cnt \<and>
          i2s ix' = [''a''] \<and> subseq (i2s ix') (i2s ix) \<and>
          (\<forall>s\<in>set (i2s ix'). \<exists>i. s2i ix s = Some i \<and> cnt (int i) \<ge> 2) \<and>
          (\<forall>s j. s2i ix' s = Some j \<longleftrightarrow> j < length (i2s ix') \<and> i2s ix' ! j = s))"
proof -
  obtain ix where h: "ssi_calls (ssi_init (Some 2)) [Add ''a'', Add ''a'', Add ''b'', SetDefault ''a''] = Inr ix"
    and l: "i2s ix = [''a'', ''b'']" and a: "s2i ix ''a'' = Some 0" and b: "s2i ix ''b'' = Some 1"
    and k: "\<exists>ix'. ssi_freeze ix = Inr ix' \<and> i2s ix' = [''a'']"
    by (simp add: ssi_init_def ssi_add_def ssi_setdefault_def count_step_def is_frozen_def
        ssi_freeze_def Let_def)
  from alphabet_monotonicity[OF h] have
    "\<exists>ix' cnt. ssi_freeze ix = Inr ix' \<and> counts ix = Some cnt \<and>
               subseq (i2s ix') (i2s ix) \<and>
               (\<forall>s\<in>set (i2s ix'). \<exists>i. s2i ix s = Some i \<and> cnt (int i) \<ge> 2) \<and>
               (\<forall>s j. s2i ix' s = Some j \<longleftrightarrow> j < length (i2s ix') \<and> i2s ix' ! j = s)"
    and "distinct (i2s ix)"
    by blast+
  then show ?thesis using h l a b k by auto
qed

text \<open>
  C10. The membership test with an integer \<open>k\<close> passes its assertion only for \<open>k > 0\<close>
  and then answers \<open>k < len\<close>; for every other integer it raises AssertionError. Index 0
  is one of them, although it is the index that \<^verbatim>\<open>add\<close> gives to the first symbol of an
  empty indexer.
\<close>

theorem contains_int_needs_positive:
  "ssi_contains ix (KInt k) =
     (if 0 < k then Inr (k < int (length (i2s ix))) else Inl AssertionError) \<and>
   ssi_contains ix (KInt 0) = Inl AssertionError \<and>
   (\<exists>ix'. ssi_add (ssi_init c) s = Inr ix' \<and> s2i ix' s = Some 0 \<and> i2s ix' = [s] \<and>
          ssi_contains ix' (KInt 0) = Inl AssertionError)"
  by (simp add: ssi_add_def ssi_init_def is_frozen_def count_step_def)

theorem contains_int_needs_positive_witness:
  "ssi_contains (ssi_init None :: string indexer) (KInt 0) = Inl AssertionError \<and>
   ssi_contains (ssi_init None :: string indexer) (KInt 1) = Inr False \<and>
   (\<exists>ix'. ssi_add (ssi_init None) ''a'' = Inr ix' \<and> s2i ix' ''a'' = Some 0 \<and> i2s ix' = [''a''] \<and>
          ssi_contains ix' (KInt 0) = Inl AssertionError)"
  using contains_int_needs_positive[of "ssi_init None :: string indexer" 0 None "''a''"]
    contains_int_needs_positive[of "ssi_init None :: string indexer" 1 None "''a''"]
  by (simp add: ssi_init_def)

text \<open>
  What \<^verbatim>\<open>get\<close> and \<^verbatim>\<open>[]\<close> do on a miss that the bound check of \<^verbatim>\<open>get\<close> covers: an index
  at or above the length and an unknown name give the default from \<^verbatim>\<open>get\<close>, and raise
  from \<^verbatim>\<open>[]\<close>.
\<close>

lemma ssi_get_covered_misses:
  "int (length (i2s ix)) \<le> k \<Longrightarrow> ssi_get ix (KInt k) d = Inr (Default d)"
  "s2i ix s = None \<Longrightarrow> ssi_get ix (KName s) d = Inr (Default d)"
  "int (length (i2s ix)) \<le> k \<Longrightarrow> ssi_getitem ix (KInt k) = Inl IndexError"
  "s2i ix s = None \<Longrightarrow> ssi_getitem ix (KName s) = Inl KeyError"
  by (simp_all add: list_item_def)

lemma ssi_get_negative:
  "k < 0 \<Longrightarrow> ssi_get ix (KInt k) d =
     (if - int (length (i2s ix)) \<le> k then Inr (Found (Str (i2s ix ! nat (int (length (i2s ix)) + k))))
      else Inl IndexError)"
  by (simp add: list_item_def)

text \<open>
  C9. \<^verbatim>\<open>get\<close> only checks \<^verbatim>\<open>k >= len(self._i2s)\<close>. A negative index passes the check and
  reaches \<^verbatim>\<open>self._i2s[k]\<close>: on an empty indexer \<^verbatim>\<open>get(-1, d)\<close> raises IndexError, and on
  an indexer holding two symbols it returns the last symbol; neither is the default.
\<close>

theorem ssi_get_negative_index:
  "ssi_get (ssi_init None) (KInt (- 1)) d = Inl IndexError \<and>
   (\<exists>ix. ssi_calls (ssi_init None) [Add ''a'', Add ''b''] = Inr ix \<and>
         ssi_get ix (KInt (- 1)) d = Inr (Found (Str ''b'')))"
  by (simp add: ssi_init_def list_item_def ssi_add_def is_frozen_def count_step_def)

section \<open>Properties of the sparse feature vector\<close>

text \<open>
  C8. On a frozen alphabet, assigning a value to a feature name that the alphabet does
  not hold raises nothing and returns the vector (active indices, override map, default)
  and the alphabet exactly as they were.
\<close>

theorem ifm_setitem_frozen_unknown:
  "is_frozen ix \<Longrightarrow> s2i ix name = None \<Longrightarrow> ifm_setitem (fm, ix) (KName name) v = Inr (fm, ix)"
  by (simp add: ifm_setitem_def)

theorem ifm_setitem_frozen_unknown_witness:
  "case ssi_calls (ssi_init None) [Add ''a'', Add ''b'', Add ''c''] of
     Inl e \<Rightarrow> False
   | Inr ix0 \<Rightarrow>
       (case ssi_freeze ix0 of
          Inl e \<Rightarrow> False
        | Inr ix \<Rightarrow>
            is_frozen ix \<and> s2i ix ''d'' = None \<and> i2s ix = [''a'', ''b'', ''c''] \<and>
            ifm_setitem (ifm_init (1 :: int), ix) (KName ''d'') 1 = Inr (ifm_init 1, ix))"
proof -
  obtain ix0 ix where h0: "ssi_calls (ssi_init None) [Add ''a'', Add ''b'', Add ''c''] = Inr ix0"
    and h1: "ssi_freeze ix0 = Inr ix"
    and f: "is_frozen ix" and n: "s2i ix ''d'' = None" and l: "i2s ix = [''a'', ''b'', ''c'']"
    by (simp add: ssi_init_def ssi_add_def count_step_def is_frozen_def ssi_freeze_def)
  from ifm_setitem_frozen_unknown[OF f n, of "ifm_init (1 :: int)" 1]
  show ?thesis using h0 h1 f n l by simp
qed

text \<open>
  Every value held by the override map differs from the default, whatever is assigned.
\<close>

lemma ifm_setitem_overrides_differ:
  assumes "ifm_setitem (fm, ix) k v = Inr (fm', ix')"
    and "\<forall>i. fm_map fm i \<noteq> Some (fm_default fm)"
  shows "fm_default fm' = fm_default fm \<and> (\<forall>i. fm_map fm' i \<noteq> Some (fm_default fm'))"
  using assms
  by (auto simp: ifm_setitem_def split: sum.splits if_splits prod.splits)

text \<open>
  C7. \<^verbatim>\<open>__setitem__\<close> writes the override map only when the value differs from the
  default and never removes an entry. After \<^verbatim>\<open>fm['a'] = 5; fm['a'] = 1\<close> on a vector with
  default 1 over an empty, unfrozen alphabet, feature \<^verbatim>\<open>'a'\<close> has index 0, its most
  recent value is the default, and the override map still holds 5 at index 0, which is
  also the value that \<^verbatim>\<open>items()\<close> reports.
\<close>

theorem ifm_setitem_default_keeps_override:
  "case setitems (ifm_init (1 :: int), ssi_init None) [(KName ''a'', 5), (KName ''a'', 1)] of
     Inl e \<Rightarrow> False
   | Inr (fm, ix) \<Rightarrow>
       s2i ix ''a'' = Some 0 \<and> fm_indices fm = {0} \<and> fm_default fm = 1 \<and>
       fm_map fm (Idx 0) = Some 5 \<and> ifm_value fm (Idx 0) = 5"
  by (simp add: ifm_setitem_def ifm_init_def ssi_init_def is_frozen_def iss_setdefault_def
      ssi_setdefault_def ssi_add_def count_step_def ifm_value_def)

section \<open>Properties of the prefix tree\<close>

lemma longest_Cons:
  "trie_longest t (a # rest) =
     (if rest = [] \<or> tmap t a = None then
        (case tvals t a of None \<Rightarrow> Inr None | Some v \<Rightarrow> Inr (Some ([a], v)))
      else (case trie_longest (the (tmap t a)) rest of
              Inl e \<Rightarrow> Inl e
            | Inr None \<Rightarrow> (case tvals t a of None \<Rightarrow> Inr None | Some v \<Rightarrow> Inr (Some ([a], v)))
            | Inr (Some (p, v)) \<Rightarrow> Inr (Some (a # p, v))))"
  by (auto split: option.splits sum.splits)

lemma longest_char: "seq \<noteq> [] \<Longrightarrow> \<exists>r. trie_longest t seq = Inr r \<and> longest_spec t seq r"
proof (induction seq arbitrary: t)
  case Nil
  then show ?case by simp
next
  case (Cons a rest)
  have own: "longest_spec t (a # rest) (case tvals t a of None \<Rightarrow> None | Some v \<Rightarrow> Some ([a], v))"
    if deeper: "\<forall>q. q \<noteq> [] \<and> prefix q rest \<longrightarrow> trie_get t (a # q) = Inr None"
  proof -
    have tail: "trie_get t q = Inr None" if "prefix q (a # rest)" "1 < length q" for q
    proof -
      from that obtain zs where "q = a # zs" "prefix zs rest" "zs \<noteq> []"
        by (cases q) (auto simp: prefix_Cons)
      then show ?thesis using deeper by blast
    qed
    show ?thesis
    proof (cases "tvals t a")
      case None
      have "trie_get t q = Inr None" if "q \<noteq> []" "prefix q (a # rest)" for q
      proof (cases "1 < length q")
        case True
        then show ?thesis using tail that by blast
      next
        case False
        then have "q = [a]" using that by (cases q) (auto simp: prefix_Cons)
        then show ?thesis using None by simp
      qed
      then show ?thesis using None by (simp add: longest_spec_def)
    next
      case (Some v)
      then show ?thesis using tail by (simp add: longest_spec_def)
    qed
  qed
  show ?case
  proof (cases "rest = [] \<or> tmap t a = None")
    case True
    then have "\<forall>q. q \<noteq> [] \<and> prefix q rest \<longrightarrow> trie_get t (a # q) = Inr None"
      by auto
    from own[OF this] show ?thesis using True by (auto simp: longest_Cons split: option.splits)
  next
    case False
    then obtain c where c: "tmap t a = Some c" and r: "rest \<noteq> []" by auto
    from Cons.IH[OF r, of c] obtain r' where l: "trie_longest c rest = Inr r'"
      and sp: "longest_spec c rest r'" by blast
    show ?thesis
    proof (cases r')
      case None
      then have "\<forall>q. q \<noteq> [] \<and> prefix q rest \<longrightarrow> trie_get t (a # q) = Inr None"
        using sp c by (simp add: longest_spec_def)
      from own[OF this] show ?thesis using c r l None
        by (auto simp: longest_Cons split: option.splits)
    next
      case (Some pv)
      obtain p v where pv: "pv = (p, v)" by (cases pv)
      have res: "trie_longest t (a # rest) = Inr (Some (a # p, v))"
        using c r l Some pv by (simp add: longest_Cons)
      have "longest_spec t (a # rest) (Some (a # p, v))"
        using sp c unfolding longest_spec_def Some pv
        by (auto simp: prefix_Cons)
      then show ?thesis using res by blast
    qed
  qed
qed


lemma get_init: "q \<noteq> [] \<Longrightarrow> trie_get trie_init q = Inr None"
  by (cases q) (simp_all add: trie_init_def)

lemma setitem_get:
  "k \<noteq> [] \<Longrightarrow> \<exists>t'. trie_setitem t k v = Inr t' \<and>
      (\<forall>q. q \<noteq> [] \<longrightarrow> trie_get t' q = (if q = k then Inr (Some v) else trie_get t q))"
proof (induction k arbitrary: t)
  case Nil
  then show ?case by simp
next
  case (Cons a rest)
  show ?case
  proof (cases "rest = []")
    case True
    have "trie_get (Trie (tmap t) ((tvals t)(a \<mapsto> v))) q = (if q = [a] then Inr (Some v) else trie_get t q)"
      if "q \<noteq> []" for q
      using that by (cases q) auto
    then show ?thesis using True by simp
  next
    case False
    define child where "child = (case tmap t a of None \<Rightarrow> trie_init | Some c \<Rightarrow> c)"
    from Cons.IH[OF False, of child] obtain c' where s: "trie_setitem child rest v = Inr c'"
      and g: "\<forall>q. q \<noteq> [] \<longrightarrow> trie_get c' q = (if q = rest then Inr (Some v) else trie_get child q)"
      by blast
    have ch: "trie_get child q = (case tmap t a of None \<Rightarrow> Inr None | Some c \<Rightarrow> trie_get c q)"
      if "q \<noteq> []" for q
      using that by (simp add: child_def get_init split: option.splits)
    have "trie_get (Trie ((tmap t)(a \<mapsto> c')) (tvals t)) q =
            (if q = a # rest then Inr (Some v) else trie_get t q)" if "q \<noteq> []" for q
    proof (cases q)
      case Nil
      then show ?thesis using that by simp
    next
      case (Cons b q')
      show ?thesis
      proof (cases "q' = []")
        case True
        then show ?thesis using Cons False by simp
      next
        case nq: False
        show ?thesis using Cons nq g ch[OF nq] by (auto split: option.splits)
      qed
    qed
    then show ?thesis using False s by (simp add: child_def)
  qed
qed

lemma setitems_get:
  "\<forall>k\<in>fst ` set kvs. k \<noteq> [] \<Longrightarrow> \<exists>t'. trie_setitems t kvs = Inr t' \<and>
      (\<forall>q. q \<noteq> [] \<longrightarrow> trie_get t' q = (case map_of (rev kvs) q of None \<Rightarrow> trie_get t q | Some v \<Rightarrow> Inr (Some v)))"
proof (induction kvs arbitrary: t)
  case Nil
  then show ?case by simp
next
  case (Cons kv kvs)
  obtain k v where kv: "kv = (k, v)" by (cases kv)
  have k: "k \<noteq> []" using Cons.prems kv by auto
  from setitem_get[OF k, of t v] obtain t1 where s1: "trie_setitem t k v = Inr t1"
    and g1: "\<forall>q. q \<noteq> [] \<longrightarrow> trie_get t1 q = (if q = k then Inr (Some v) else trie_get t q)" by blast
  from Cons.prems have "\<forall>k\<in>fst ` set kvs. k \<noteq> []" by auto
  from Cons.IH[OF this, of t1] obtain t' where s2: "trie_setitems t1 kvs = Inr t'"
    and g2: "\<forall>q. q \<noteq> [] \<longrightarrow> trie_get t' q = (case map_of (rev kvs) q of None \<Rightarrow> trie_get t1 q | Some v \<Rightarrow> Inr (Some v))"
    by blast
  have "trie_get t' q = (case map_of (rev (kv # kvs)) q of None \<Rightarrow> trie_get t q | Some v \<Rightarrow> Inr (Some v))"
    if "q \<noteq> []" for q
    using that g1 g2 kv by (auto simp: map_add_def split: option.splits)
  then show ?case using s1 s2 kv by simp
qed

lemma map_of_rev_None: "map_of (rev kvs) q = None \<longleftrightarrow> q \<notin> fst ` set kvs"
  by (simp add: map_of_eq_None_iff)

lemma longest_in_char:
  assumes "\<forall>K\<in>fst ` set kvs. K \<noteq> []" and "S \<noteq> []"
  shows "\<exists>r. longest_in kvs S = Inr r \<and>
           (case r of
              None \<Rightarrow> (\<forall>K\<in>fst ` set kvs. \<not> prefix K S)
            | Some (q, v) \<Rightarrow> map_of (rev kvs) q = Some v \<and> prefix q S \<and>
                (\<forall>K\<in>fst ` set kvs. prefix K S \<longrightarrow> length K \<le> length q))"
proof -
  from setitems_get[OF assms(1), of trie_init] obtain t where t: "trie_setitems trie_init kvs = Inr t"
    and g0: "\<forall>q. q \<noteq> [] \<longrightarrow> trie_get t q =
               (case map_of (rev kvs) q of None \<Rightarrow> trie_get trie_init q | Some v \<Rightarrow> Inr (Some v))"
    by blast
  have g: "trie_get t q = (case map_of (rev kvs) q of None \<Rightarrow> Inr None | Some v \<Rightarrow> Inr (Some v))"
    if "q \<noteq> []" for q
    using g0 that by (simp add: get_init split: option.splits)
  have absent: "K \<notin> fst ` set kvs" if "K \<noteq> []" "trie_get t K = Inr None" for K
    using g[OF that(1)] that(2) map_of_rev_None[of kvs K] by (auto split: option.splits)
  from longest_char[OF assms(2), of t] obtain r where l: "trie_longest t S = Inr r"
    and sp: "longest_spec t S r" by blast
  have li: "longest_in kvs S = Inr r" using t l by (simp add: longest_in_def)
  show ?thesis
  proof (cases r)
    case None
    have "\<not> prefix K S" if "K \<in> fst ` set kvs" for K
    proof
      assume p: "prefix K S"
      have ne: "K \<noteq> []" using that assms(1) by blast
      then have "trie_get t K = Inr None" using sp None p by (simp add: longest_spec_def)
      from absent[OF ne this] show False using that by simp
    qed
    then show ?thesis using li None by auto
  next
    case (Some pv)
    obtain q v where pv: "pv = (q, v)" by (cases pv)
    from sp Some pv have q: "q \<noteq> []" "prefix q S" "trie_get t q = Inr (Some v)"
      and far: "\<forall>q'. prefix q' S \<and> length q < length q' \<longrightarrow> trie_get t q' = Inr None"
      by (simp_all add: longest_spec_def)
    have m: "map_of (rev kvs) q = Some v" using g[OF q(1)] q(3) by (auto split: option.splits)
    have "length K \<le> length q" if "K \<in> fst ` set kvs" "prefix K S" for K
    proof (rule ccontr)
      assume "\<not> length K \<le> length q"
      then have "trie_get t K = Inr None" using far that(2) by simp
      moreover have "K \<noteq> []" using that(1) assms(1) by blast
      ultimately show False using absent that(1) by blast
    qed
    then show ?thesis using li Some pv m q(2) by auto
  qed
qed

lemma prefix_same_length: "prefix p S \<Longrightarrow> prefix q S \<Longrightarrow> length p = length q \<Longrightarrow> p = q"
  by (auto simp: prefix_def)

text \<open>
  The scenario with exactly two stored keys, \<open>K1\<close> a strict prefix of \<open>K2\<close> and \<open>K2\<close> a
  prefix of \<open>S\<close>: \<^verbatim>\<open>longest(S)\<close> returns \<open>K2\<close> with its value.
\<close>

lemma longest_two_keys:
  assumes "K1 \<noteq> []" "strict_prefix K1 K2" "prefix K2 S"
  shows "longest_in [(K1, v1), (K2, v2)] S = Inr (Some (K2, v2))"
proof -
  have k2: "K2 \<noteq> []" "K1 \<noteq> K2" "length K1 < length K2" using assms(1,2)
    by (auto simp: strict_prefix_def prefix_def)
  have s: "S \<noteq> []" using assms(3) k2(1) by auto
  have ne: "\<forall>K\<in>fst ` set [(K1, v1), (K2, v2)]. K \<noteq> []" using assms(1) k2(1) by simp
  from longest_in_char[OF ne s] obtain r where li: "longest_in [(K1, v1), (K2, v2)] S = Inr r"
    and ch: "case r of
              None \<Rightarrow> (\<forall>K\<in>fst ` set [(K1, v1), (K2, v2)]. \<not> prefix K S)
            | Some (q, v) \<Rightarrow> map_of (rev [(K1, v1), (K2, v2)]) q = Some v \<and> prefix q S \<and>
                (\<forall>K\<in>fst ` set [(K1, v1), (K2, v2)]. prefix K S \<longrightarrow> length K \<le> length q)"
    by blast
  show ?thesis
  proof (cases r)
    case None
    then show ?thesis using ch assms(3) by simp
  next
    case (Some pv)
    obtain q v where pv: "pv = (q, v)" by (cases pv)
    from ch Some pv have m: "map_of (rev [(K1, v1), (K2, v2)]) q = Some v"
      and le: "length K2 \<le> length q" using assms(3) by simp_all
    from m le k2 have "q = K2 \<and> v = v2" by (auto split: if_splits)
    then show ?thesis using li Some pv by simp
  qed
qed

text \<open>
  C3, as stated, fails: the claim names any two stored keys \<open>K1\<close>, \<open>K2\<close> with \<open>K1\<close> a strict
  prefix of \<open>K2\<close> and both prefixes of \<open>S\<close>. With the keys \<^verbatim>\<open>'a'\<close>, \<^verbatim>\<open>'ab'\<close> and \<^verbatim>\<open>'abc'\<close>
  stored and \<open>S\<close> = \<^verbatim>\<open>'abc'\<close>, the choice \<open>K1\<close> = \<^verbatim>\<open>'a'\<close>, \<open>K2\<close> = \<^verbatim>\<open>'ab'\<close> meets
  the conditions, and \<^verbatim>\<open>longest\<close> returns the still longer key \<^verbatim>\<open>'abc'\<close> with its value.
\<close>

theorem longest_not_any_stored_pair:
  "strict_prefix ''a'' ''ab'' \<and> prefix ''ab'' ''abc'' \<and>
   get_in [(''a'', 1::nat), (''ab'', 2), (''abc'', 3)] ''a'' = Inr (Some 1) \<and>
   get_in [(''a'', 1::nat), (''ab'', 2), (''abc'', 3)] ''ab'' = Inr (Some 2) \<and>
   longest_in [(''a'', 1::nat), (''ab'', 2), (''abc'', 3)] ''abc'' = Inr (Some (''abc'', 3)) \<and>
   longest_in [(''a'', 1::nat), (''ab'', 2), (''abc'', 3)] ''abc'' \<noteq> Inr (Some (''ab'', 2))"
  by (simp add: longest_in_def get_in_def trie_init_def strict_prefix_def)

text \<open>
  C3, amended. Let the pairs \<open>kvs\<close> be assigned, in order, to a fresh trie, every key
  non-empty, and let \<open>S\<close> be a non-empty sequence. If \<open>K2\<close> is a stored key and a prefix of
  \<open>S\<close>, and no stored key that is a prefix of \<open>S\<close> is longer than \<open>K2\<close>, then \<^verbatim>\<open>longest(S)\<close>
  returns \<open>K2\<close> with the value last assigned to it, so never the value of a shorter
  stored prefix \<open>K1\<close>. If no stored key is a prefix of \<open>S\<close>, \<^verbatim>\<open>longest(S)\<close> returns the
  default.
\<close>

theorem longest_prefix_correct:
  assumes "\<forall>K\<in>fst ` set kvs. K \<noteq> []" and "S \<noteq> []"
  shows "(\<forall>K2 v2. map_of (rev kvs) K2 = Some v2 \<and> prefix K2 S \<and>
            (\<forall>K\<in>fst ` set kvs. prefix K S \<longrightarrow> length K \<le> length K2)
            \<longrightarrow> longest_in kvs S = Inr (Some (K2, v2))) \<and>
         ((\<forall>K\<in>fst ` set kvs. \<not> prefix K S) \<longrightarrow> longest_in kvs S = Inr None)"
proof -
  from longest_in_char[OF assms] obtain r where li: "longest_in kvs S = Inr r"
    and ch: "case r of
              None \<Rightarrow> (\<forall>K\<in>fst ` set kvs. \<not> prefix K S)
            | Some (q, v) \<Rightarrow> map_of (rev kvs) q = Some v \<and> prefix q S \<and>
                (\<forall>K\<in>fst ` set kvs. prefix K S \<longrightarrow> length K \<le> length q)"
    by blast
  have stored: "q \<in> fst ` set kvs" if "map_of (rev kvs) q = Some v" for q v
    using that map_of_rev_None[of kvs q] by auto
  have part1: "longest_in kvs S = Inr (Some (K2, v2))"
    if m: "map_of (rev kvs) K2 = Some v2" and p: "prefix K2 S"
      and mx: "\<forall>K\<in>fst ` set kvs. prefix K S \<longrightarrow> length K \<le> length K2" for K2 v2
  proof (cases r)
    case None
    then show ?thesis using ch stored[OF m] p by auto
  next
    case (Some pv)
    obtain q v where pv: "pv = (q, v)" by (cases pv)
    from ch Some pv have q: "map_of (rev kvs) q = Some v" "prefix q S"
      and qmx: "\<forall>K\<in>fst ` set kvs. prefix K S \<longrightarrow> length K \<le> length q" by simp_all
    have "length q \<le> length K2" using mx stored[OF q(1)] q(2) by blast
    moreover have "length K2 \<le> length q" using qmx stored[OF m] p by blast
    ultimately have "q = K2" using prefix_same_length[OF q(2) p] by simp
    then show ?thesis using li Some pv q(1) m by simp
  qed
  have part2: "longest_in kvs S = Inr None" if no: "\<forall>K\<in>fst ` set kvs. \<not> prefix K S"
  proof (cases r)
    case None
    then show ?thesis using li by simp
  next
    case (Some pv)
    obtain q v where pv: "pv = (q, v)" by (cases pv)
    from ch Some pv have "map_of (rev kvs) q = Some v" "prefix q S" by simp_all
    then show ?thesis using no stored by blast
  qed
  show ?thesis using part1 part2 by blast
qed

theorem longest_prefix_correct_witness:
  "[] \<notin> fst ` set [(''a'', 1::nat), (''ab'', 2)] \<and> ''abc'' \<noteq> [] \<and>
   map_of (rev [(''a'', 1::nat), (''ab'', 2)]) ''ab'' = Some 2 \<and> prefix ''ab'' ''abc'' \<and>
   strict_prefix ''a'' ''ab'' \<and>
   longest_in [(''a'', 1::nat), (''ab'', 2)] ''abc'' = Inr (Some (''ab'', 2)) \<and>
   longest_in [(''a'', 1::nat), (''ab'', 2)] ''xyz'' = Inr None"
proof -
  have h1: "\<forall>K\<in>fst ` set [(''a'', 1::nat), (''ab'', 2)]. K \<noteq> []" by simp
  have h2: "''abc'' \<noteq> []" and h3: "''xyz'' \<noteq> []" by simp_all
  have m: "map_of (rev [(''a'', 1::nat), (''ab'', 2)]) ''ab'' = Some 2" by simp
  have p: "prefix ''ab'' ''abc''" by simp
  have mx: "\<forall>K\<in>fst ` set [(''a'', 1::nat), (''ab'', 2)]. prefix K ''abc'' \<longrightarrow> length K \<le> length ''ab''"
    by simp
  have no: "\<forall>K\<in>fst ` set [(''a'', 1::nat), (''ab'', 2)]. \<not> prefix K ''xyz''" by simp
  have a: "longest_in [(''a'', 1::nat), (''ab'', 2)] ''abc'' = Inr (Some (''ab'', 2))"
    using longest_prefix_correct[OF h1 h2] m p mx by blast
  have b: "longest_in [(''a'', 1::nat), (''ab'', 2)] ''xyz'' = Inr None"
    using longest_prefix_correct[OF h1 h3] no by blast
  show ?thesis using a b m p by (simp add: strict_prefix_def)
qed

section \<open>Properties of the most-frequent-sense baseline\<close>

lemma list_item_first: "xs \<noteq> [] \<Longrightarrow> list_item xs 0 = Inr (hd xs)"
  by (cases xs) (simp_all add: list_item_def)

lemma list_item_last: "xs \<noteq> [] \<Longrightarrow> list_item xs (- 1) = Inr (last xs)"
  by (cases xs) (simp_all add: list_item_def last_conv_nth)

lemma longest_result:
  assumes "trie_longest t seq = Inr (Some (p, v))"
  shows "p \<noteq> [] \<and> prefix p seq"
proof -
  have ne: "seq \<noteq> []" using assms by (cases seq) auto
  from longest_char[OF ne, of t] assms show ?thesis by (auto simp: longest_spec_def)
qed

lemma slice_to_match:
  "p \<noteq> [] \<Longrightarrow> slice_to xs (int (length p) - 1) = take (length p - 1) xs"
  by (cases p) (simp_all add: slice_to_def)

lemma mfs_step:
  assumes "stems \<noteq> []" "coarse_poses \<noteq> []"
  shows "getMostFrequentSensePrefix t stems coarse_poses =
     (case trie_longest t stems of
        Inl e \<Rightarrow> Inl e
      | Inr None \<Rightarrow> Inr None
      | Inr (Some (pfx, pos2sense)) \<Rightarrow>
          (case pos2sense (hd coarse_poses) of
             Some sense \<Rightarrow> Inr (Some (pfx, sense))
           | None \<Rightarrow>
               (case pos2sense (last coarse_poses) of
                  Some sense \<Rightarrow> Inr (Some (pfx, sense))
                | None \<Rightarrow>
                    (if take (length pfx - 1) stems \<noteq> [] then
                       getMostFrequentSensePrefix t (take (length pfx - 1) stems)
                         (take (length pfx - 1) coarse_poses)
                     else Inr None))))"
proof (cases "trie_longest t stems")
  case (Inl e)
  then show ?thesis by (subst getMostFrequentSensePrefix.simps) simp
next
  case (Inr r)
  show ?thesis
  proof (cases r)
    case None
    then show ?thesis using Inr by (subst getMostFrequentSensePrefix.simps) simp
  next
    case (Some pv)
    obtain pfx p2s where pv: "pv = (pfx, p2s)" by (cases pv)
    have "pfx \<noteq> []" using longest_result[of t stems pfx p2s] Inr Some pv by simp
    then show ?thesis using Inr Some pv assms
      by (subst getMostFrequentSensePrefix.simps)
         (simp add: list_item_first list_item_last slice_to_match split: option.splits)
  qed
qed

lemma mfs_returns:
  "stems \<noteq> [] \<Longrightarrow> coarse_poses \<noteq> [] \<Longrightarrow> \<exists>r. getMostFrequentSensePrefix t stems coarse_poses = Inr r"
proof (induction "length stems" arbitrary: stems coarse_poses rule: less_induct)
  case less
  from longest_char[OF less.prems(1), of t] obtain r where l: "trie_longest t stems = Inr r"
    and sp: "longest_spec t stems r" by blast
  show ?case
  proof (cases r)
    case None
    then show ?thesis using l by (simp add: mfs_step[OF less.prems])
  next
    case (Some pv)
    obtain pfx p2s where pv: "pv = (pfx, p2s)" by (cases pv)
    have p: "pfx \<noteq> []" "prefix pfx stems" using sp Some pv by (simp_all add: longest_spec_def)
    then have len: "length pfx \<le> length stems" by (auto simp: prefix_def)
    show ?thesis
    proof (cases "p2s (hd coarse_poses) = None \<and> p2s (last coarse_poses) = None \<and> take (length pfx - 1) stems \<noteq> []")
      case True
      then have n1: "take (length pfx - 1) stems \<noteq> []" by simp
      then have "0 < length pfx - 1" by (cases "length pfx - 1") auto
      then have n2: "take (length pfx - 1) coarse_poses \<noteq> []" using less.prems(2) by (cases coarse_poses) auto
      have "length (take (length pfx - 1) stems) < length stems" using len p(1) less.prems(1)
        by (cases pfx; cases stems) auto
      from less.hyps[OF this n1 n2] show ?thesis using True l Some pv
        by (simp add: mfs_step[OF less.prems])
    next
      case False
      then show ?thesis using l Some pv
        by (auto simp: mfs_step[OF less.prems] split: option.splits)
    qed
  qed
qed

text \<open>
  C5. On non-empty stems and coarse POS tags \<^verbatim>\<open>getMostFrequentSensePrefix\<close> returns a
  result (the function is total by its termination proof, whose measure is the number of
  stems, and it raises nothing). When the entry found for the longest prefix has neither
  the first nor the last coarse POS, the truncated input \<^verbatim>\<open>stems[:len(prefix)-1]\<close> is the
  first \<open>matchLen - 1\<close> stems, it is strictly shorter than the input, and the result is
  \<^verbatim>\<open>None\<close> when it is empty and the result of the call on the truncated input otherwise.
\<close>

theorem getMostFrequentSensePrefix_terminates:
  assumes "stems \<noteq> []" "coarse_poses \<noteq> []"
  shows "(\<exists>r. getMostFrequentSensePrefix t stems coarse_poses = Inr r) \<and>
    (\<forall>pfx p2s. trie_longest t stems = Inr (Some (pfx, p2s)) \<and>
        p2s (hd coarse_poses) = None \<and> p2s (last coarse_poses) = None \<longrightarrow>
       slice_to stems (int (length pfx) - 1) = take (length pfx - 1) stems \<and>
       length (take (length pfx - 1) stems) < length stems \<and>
       getMostFrequentSensePrefix t stems coarse_poses =
         (if take (length pfx - 1) stems = [] then Inr None
          else getMostFrequentSensePrefix t (take (length pfx - 1) stems)
                 (take (length pfx - 1) coarse_poses)))"
proof (intro conjI allI impI)
  show "\<exists>r. getMostFrequentSensePrefix t stems coarse_poses = Inr r"
    by (rule mfs_returns[OF assms])
next
  fix pfx p2s
  assume a: "trie_longest t stems = Inr (Some (pfx, p2s)) \<and>
        p2s (hd coarse_poses) = None \<and> p2s (last coarse_poses) = None"
  then have p: "pfx \<noteq> []" "prefix pfx stems" using longest_result[of t stems pfx p2s] by simp_all
  show "slice_to stems (int (length pfx) - 1) = take (length pfx - 1) stems"
    by (rule slice_to_match[OF p(1)])
  have "length pfx \<le> length stems" using p(2) by (auto simp: prefix_def)
  then show "length (take (length pfx - 1) stems) < length stems" using p(1) assms(1)
    by (cases pfx; cases stems) auto
  show "getMostFrequentSensePrefix t stems coarse_poses =
         (if take (length pfx - 1) stems = [] then Inr None
          else getMostFrequentSensePrefix t (take (length pfx - 1) stems)
                 (take (length pfx - 1) coarse_poses))"
    using a by (simp add: mfs_step[OF assms])
qed

theorem getMostFrequentSensePrefix_terminates_witness:
  "case trie_setitems trie_init
          [([''go'', ''out''], [''V'' \<mapsto> ''motion'']), ([''go''], [''N'' \<mapsto> ''act''])] of
     Inl e \<Rightarrow> False
   | Inr t \<Rightarrow>
       [''go'', ''out''] \<noteq> [] \<and> [''N'', ''N''] \<noteq> [] \<and>
       trie_longest t [''go'', ''out''] = Inr (Some ([''go'', ''out''], [''V'' \<mapsto> ''motion''])) \<and>
       length (take (length [''go'', ''out''] - 1) [''go'', ''out'']) < length [''go'', ''out''] \<and>
       getMostFrequentSensePrefix t [''go'', ''out''] [''N'', ''N''] =
         getMostFrequentSensePrefix t [''go''] [''N''] \<and>
       getMostFrequentSensePrefix t [''go'', ''out''] [''N'', ''N''] = Inr (Some ([''go''], ''act''))"
proof -
  obtain t where h: "trie_setitems trie_init
          [([''go'', ''out''], [''V'' \<mapsto> ''motion'']), ([''go''], [''N'' \<mapsto> ''act''])] = Inr t"
    and l: "trie_longest t [''go'', ''out''] = Inr (Some ([''go'', ''out''], [''V'' \<mapsto> ''motion'']))"
    and v: "getMostFrequentSensePrefix t [''go''] [''N''] = Inr (Some ([''go''], ''act''))"
    by (simp add: trie_init_def getMostFrequentSensePrefix.simps list_item_def slice_to_def)
  have n1: "[''go'', ''out''] \<noteq> []" and n2: "[''N'', ''N''] \<noteq> []" by simp_all
  have m: "trie_longest t [''go'', ''out''] = Inr (Some ([''go'', ''out''], [''V'' \<mapsto> ''motion''])) \<and>
           [''V'' \<mapsto> ''motion''] (hd [''N'', ''N'']) = None \<and>
           [''V'' \<mapsto> ''motion''] (last [''N'', ''N'']) = None"
    using l by simp
  from getMostFrequentSensePrefix_terminates[OF n1 n2, of t] m
  have "length (take (length [''go'', ''out''] - 1) [''go'', ''out'']) < length [''go'', ''out''] \<and>
        getMostFrequentSensePrefix t [''go'', ''out''] [''N'', ''N''] =
          (if take (length [''go'', ''out''] - 1) [''go'', ''out''] = [] then Inr None
           else getMostFrequentSensePrefix t (take (length [''go'', ''out''] - 1) [''go'', ''out''])
                  (take (length [''go'', ''out''] - 1) [''N'', ''N'']))"
    by blast
  then show ?thesis using h l v by simp
qed

lemma bio_ok_Nil: "bio_ok []"
  by (simp add: bio_ok_def)

lemma bio_ok_snoc:
  assumes "bio_ok res"
    and "l = ''O'' \<or> (\<exists>s. l = ''B-'' @ s) \<or>
         (\<exists>s. l = ''I-'' @ s \<and> res \<noteq> [] \<and> (last res = ''B-'' @ s \<or> last res = ''I-'' @ s))"
  shows "bio_ok (res @ [l])"
proof -
  have old: "(res @ [l]) ! n = res ! n" if "n < length res" for n
    using that by (simp add: nth_append)
  have new: "(res @ [l]) ! length res = l" by simp
  have 1: "(res @ [l]) ! n = ''O'' \<or> (\<exists>s. (res @ [l]) ! n = ''B-'' @ s) \<or> (\<exists>s. (res @ [l]) ! n = ''I-'' @ s)"
    if "n < length (res @ [l])" for n
  proof (cases "n < length res")
    case True
    then show ?thesis using assms(1) old[OF True] by (simp add: bio_ok_def)
  next
    case False
    then have "n = length res" using that by simp
    then show ?thesis using assms(2) new by auto
  qed
  have 2: "0 < n \<and> ((res @ [l]) ! (n - 1) = ''B-'' @ s \<or> (res @ [l]) ! (n - 1) = ''I-'' @ s)"
    if "n < length (res @ [l])" "(res @ [l]) ! n = ''I-'' @ s" for n s
  proof (cases "n < length res")
    case True
    then have "res ! n = ''I-'' @ s" using that(2) old by simp
    then have "0 < n \<and> (res ! (n - 1) = ''B-'' @ s \<or> res ! (n - 1) = ''I-'' @ s)"
      using assms(1) True by (simp add: bio_ok_def)
    moreover have "n - 1 < length res" using True by simp
    ultimately show ?thesis using old[of "n - 1"] by simp
  next
    case False
    then have n: "n = length res" using that(1) by simp
    then have "l = ''I-'' @ s" using that(2) by simp
    then have ne: "res \<noteq> []" and la: "last res = ''B-'' @ s \<or> last res = ''I-'' @ s"
      using assms(2) by auto
    have "(res @ [l]) ! (n - 1) = last res" using ne n old[of "length res - 1"]
      by (simp add: last_conv_nth)
    then show ?thesis using la ne n by simp
  qed
  show ?thesis unfolding bio_ok_def using 1 2 by blast
qed

lemma bio_ok_I_run:
  "bio_ok res \<Longrightarrow> res \<noteq> [] \<Longrightarrow> last res = ''B-'' @ s \<or> last res = ''I-'' @ s \<Longrightarrow>
     bio_ok (res @ replicate n (''I-'' @ s))"
proof (induction n arbitrary: res)
  case 0
  then show ?case by simp
next
  case (Suc n)
  have "bio_ok (res @ [''I-'' @ s])" using Suc.prems by (intro bio_ok_snoc) auto
  from Suc.IH[OF this] show ?case by simp
qed

lemma bio_ok_chunk: "bio_ok res \<Longrightarrow> bio_ok (res @ [''B-'' @ s] @ replicate n (''I-'' @ s))"
proof -
  assume "bio_ok res"
  then have "bio_ok (res @ [''B-'' @ s])" by (intro bio_ok_snoc) auto
  from bio_ok_I_run[OF this, of s n] show ?thesis by simp
qed

lemma mfs_result:
  "stems \<noteq> [] \<Longrightarrow> coarse_poses \<noteq> [] \<Longrightarrow>
   getMostFrequentSensePrefix t stems coarse_poses = Inr (Some (wp, s)) \<Longrightarrow>
   wp \<noteq> [] \<and> length wp \<le> length stems"
proof (induction "length stems" arbitrary: stems coarse_poses rule: less_induct)
  case less
  from longest_char[OF less.prems(1), of t] obtain r where l: "trie_longest t stems = Inr r"
    and sp: "longest_spec t stems r" by blast
  show ?case
  proof (cases r)
    case None
    then show ?thesis using l less.prems(3) by (simp add: mfs_step[OF less.prems(1,2)])
  next
    case (Some pv)
    obtain pfx p2s where pv: "pv = (pfx, p2s)" by (cases pv)
    have p: "pfx \<noteq> []" "prefix pfx stems" using sp Some pv by (simp_all add: longest_spec_def)
    then have len: "length pfx \<le> length stems" by (auto simp: prefix_def)
    show ?thesis
    proof (cases "p2s (hd coarse_poses) = None \<and> p2s (last coarse_poses) = None")
      case True
      show ?thesis
      proof (cases "take (length pfx - 1) stems = []")
        case e: True
        then show ?thesis using True l Some pv less.prems(3)
          by (simp add: mfs_step[OF less.prems(1,2)])
      next
        case n1: False
        then have "0 < length pfx - 1" by (cases "length pfx - 1") auto
        then have n2: "take (length pfx - 1) coarse_poses \<noteq> []"
          using less.prems(2) by (cases coarse_poses) auto
        have sh: "length (take (length pfx - 1) stems) < length stems" using len p(1) less.prems(1)
          by (cases pfx; cases stems) auto
        have "getMostFrequentSensePrefix t (take (length pfx - 1) stems)
                (take (length pfx - 1) coarse_poses) = Inr (Some (wp, s))"
          using True n1 l Some pv less.prems(3) by (simp add: mfs_step[OF less.prems(1,2)])
        from less.hyps[OF sh n1 n2 this] show ?thesis using sh by simp
      qed
    next
      case False
      then have "wp = pfx" using l Some pv less.prems(3)
        by (auto simp: mfs_step[OF less.prems(1,2)] split: option.splits)
      then show ?thesis using p(1) len by simp
    qed
  qed
qed

lemma efs_loop_ok:
  "length coarse_poses = length stems \<Longrightarrow> i \<le> length stems \<Longrightarrow> length res = i \<Longrightarrow> bio_ok res \<Longrightarrow>
   \<exists>out. efs_loop t stems coarse_poses i res = Inr out \<and> length out = length stems \<and> bio_ok out"
proof (induction "length stems - i" arbitrary: i res rule: less_induct)
  case less
  show ?case
  proof (cases "i < length stems")
    case False
    then show ?thesis using less.prems by (subst efs_loop.simps) simp
  next
    case True
    have ne1: "drop i stems \<noteq> []" and ne2: "drop i coarse_poses \<noteq> []"
      using True less.prems(1) by simp_all
    from mfs_returns[OF ne1 ne2, of t] obtain r where
      r: "getMostFrequentSensePrefix t (drop i stems) (drop i coarse_poses) = Inr r" by blast
    show ?thesis
    proof (cases r)
      case None
      have b: "bio_ok (res @ [''O''])" using less.prems(4) by (rule bio_ok_snoc) simp
      have lenr: "length (res @ [''O'']) = i + 1" using less.prems(3) by simp
      have le: "i + 1 \<le> length stems" using True by simp
      have dec: "length stems - (i + 1) < length stems - i" using True by simp
      have "\<exists>out. efs_loop t stems coarse_poses (i + 1) (res @ [''O'']) = Inr out \<and>
              length out = length stems \<and> bio_ok out"
        by (rule less.hyps[OF dec less.prems(1) le lenr b])
      then show ?thesis using True r None by (subst efs_loop.simps) simp
    next
      case (Some ws)
      obtain wp s where ws: "ws = (wp, s)" by (cases ws)
      from mfs_result[OF ne1 ne2, of t wp s] r Some ws
      have wp: "wp \<noteq> []" "length wp \<le> length stems - i" by simp_all
      then have tlw: "1 + length (tl wp) = length wp" by (cases wp) simp_all
      have b: "bio_ok (res @ [''B-'' @ s] @ replicate (length (tl wp)) (''I-'' @ s))"
        using less.prems(4) by (rule bio_ok_chunk)
      have lenr: "length (res @ [''B-'' @ s] @ replicate (length (tl wp)) (''I-'' @ s)) =
                    i + 1 + length (tl wp)"
        using less.prems(3) by simp
      have le: "i + 1 + length (tl wp) \<le> length stems" using wp(2) tlw True by simp
      have dec: "length stems - (i + 1 + length (tl wp)) < length stems - i" using True by simp
      have "\<exists>out. efs_loop t stems coarse_poses (i + 1 + length (tl wp))
                (res @ [''B-'' @ s] @ replicate (length (tl wp)) (''I-'' @ s)) = Inr out \<and>
              length out = length stems \<and> bio_ok out"
        by (rule less.hyps[OF dec less.prems(1) le lenr b])
      then show ?thesis using True r Some ws by (subst efs_loop.simps) simp
    qed
  qed
qed

lemma first_chars_ok:
  "\<forall>p\<in>set ps. p \<noteq> [] \<Longrightarrow> \<exists>cs. first_chars ps = Inr cs \<and> length cs = length ps"
proof (induction ps)
  case Nil
  then show ?case by simp
next
  case (Cons p ps)
  then obtain cs where "first_chars ps = Inr cs" "length cs = length ps" by auto
  then show ?case using Cons.prems by (cases p) auto
qed

text \<open>
  C4. For a sentence of \<open>N\<close> tokens whose POS tags are non-empty strings,
  \<^verbatim>\<open>extractFirstSensePredictedLabels\<close> returns a list of exactly \<open>N\<close> labels; each label is
  \<^verbatim>\<open>O\<close> or starts with \<^verbatim>\<open>B-\<close> or \<^verbatim>\<open>I-\<close>; and a label \<^verbatim>\<open>I-s\<close> is never the first one and
  comes right after \<^verbatim>\<open>B-s\<close> or \<^verbatim>\<open>I-s\<close>.
\<close>

theorem sense_segmentation_coverage:
  assumes "\<forall>w\<in>set sent. pos w \<noteq> []"
  shows "\<exists>res. extractFirstSensePredictedLabels senseTrie sent = Inr res \<and>
           length res = length sent \<and>
           (\<forall>n<length res. res ! n = ''O'' \<or> (\<exists>s. res ! n = ''B-'' @ s) \<or> (\<exists>s. res ! n = ''I-'' @ s)) \<and>
           (\<forall>n<length res. \<forall>s. res ! n = ''I-'' @ s \<longrightarrow>
              0 < n \<and> (res ! (n - 1) = ''B-'' @ s \<or> res ! (n - 1) = ''I-'' @ s))"
proof -
  from assms have "\<forall>p\<in>set (map pos sent). p \<noteq> []" by simp
  from first_chars_ok[OF this] obtain cs where c: "first_chars (map pos sent) = Inr cs"
    and lc: "length cs = length (map stem sent)" by auto
  from efs_loop_ok[OF lc _ _ bio_ok_Nil, of 0 senseTrie]
  obtain out where "efs_loop senseTrie (map stem sent) cs 0 [] = Inr out"
    "length out = length sent" "bio_ok out" by auto
  then show ?thesis using c unfolding bio_ok_def
    by (simp add: extractFirstSensePredictedLabels_def)
qed

theorem sense_segmentation_coverage_witness:
  "case trie_setitems trie_init [([''go'', ''out''], [''V'' \<mapsto> ''motion''])] of
     Inl e \<Rightarrow> False
   | Inr t \<Rightarrow>
       [] \<notin> pos ` set
         [\<lparr>token = ''Go'', stem = ''go'', pos = ''VB'', shape = ''Aa''\<rparr>,
          \<lparr>token = ''out'', stem = ''out'', pos = ''RP'', shape = ''a''\<rparr>,
          \<lparr>token = ''now'', stem = ''now'', pos = ''RB'', shape = ''a''\<rparr>] \<and>
       extractFirstSensePredictedLabels t
         [\<lparr>token = ''Go'', stem = ''go'', pos = ''VB'', shape = ''Aa''\<rparr>,
          \<lparr>token = ''out'', stem = ''out'', pos = ''RP'', shape = ''a''\<rparr>,
          \<lparr>token = ''now'', stem = ''now'', pos = ''RB'', shape = ''a''\<rparr>]
        = Inr [''B-motion'', ''I-motion'', ''O'']"
proof -
  let ?sent = "[\<lparr>token = ''Go'', stem = ''go'', pos = ''VB'', shape = ''Aa''\<rparr>,
          \<lparr>token = ''out'', stem = ''out'', pos = ''RP'', shape = ''a''\<rparr>,
          \<lparr>token = ''now'', stem = ''now'', pos = ''RB'', shape = ''a''\<rparr>]"
  obtain t where h: "trie_setitems trie_init [([''go'', ''out''], [''V'' \<mapsto> ''motion''])] = Inr t"
    and v: "extractFirstSensePredictedLabels t ?sent = Inr [''B-motion'', ''I-motion'', ''O'']"
    by (simp add: trie_init_def extractFirstSensePredictedLabels_def efs_loop.simps
        getMostFrequentSensePrefix.simps list_item_def slice_to_def)
  have p: "\<forall>w\<in>set ?sent. pos w \<noteq> []" by simp
  from sense_segmentation_coverage[OF p, of t] v
  have "length [''B-motion'', ''I-motion'', ''O''] = length ?sent" by auto
  then show ?thesis using h v by simp
qed

section \<open>The distance bucket of the POS-neighbor template\<close>

lemma bin_left: "d \<le> - 10 \<Longrightarrow> bin_distance d = d div 10 * 10"
proof -
  assume a: "d \<le> - 10"
  then have "\<bar>d\<bar> = - d" by simp
  then show ?thesis using a unfolding bin_distance_def by simp
qed

lemma spec_left: "d \<le> - 10 \<Longrightarrow> bucket_toward_zero d = - ((- d) div 10 * 10)"
proof -
  assume a: "d \<le> - 10"
  then have "\<bar>d\<bar> = - d" "sgn d = - 1" by simp_all
  then show ?thesis using a unfolding bucket_toward_zero_def by simp
qed

lemma bin_mid: "- 10 < d \<Longrightarrow> d < - 5 \<Longrightarrow> bin_distance d = - 6 \<and> bucket_toward_zero d = - 6"
proof -
  assume a: "- 10 < d" "d < - 5"
  then have "\<bar>d\<bar> = - d" "sgn d = - 1" by simp_all
  then show ?thesis using a unfolding bin_distance_def bucket_toward_zero_def by simp
qed

lemma bin_distance_right: "5 < d \<Longrightarrow> bin_distance d = bucket_toward_zero d"
proof -
  assume a: "5 < d"
  then have "\<bar>d\<bar> = d" "sgn d = 1" by simp_all
  then show ?thesis using a unfolding bin_distance_def bucket_toward_zero_def by simp
qed

lemma floor_vs_trunc: "(d::int) div 10 * 10 = - ((- d) div 10 * 10) \<longleftrightarrow> d mod 10 = 0"
  by (simp add: zdiv_zminus1_eq_if algebra_simps)

lemma bin_distance_agrees:
  "5 < \<bar>d\<bar> \<Longrightarrow> bin_distance d = bucket_toward_zero d \<longleftrightarrow> 0 < d \<or> - 10 < d \<or> d mod 10 = 0"
proof -
  assume a: "5 < \<bar>d\<bar>"
  consider "5 < d" | "- 10 < d" "d < - 5" | "d \<le> - 10" using a by linarith
  then show ?thesis
  proof cases
    case 1
    then have "0 < d" by simp
    then show ?thesis using bin_distance_right[OF 1] by blast
  next
    case 2
    then show ?thesis using bin_mid[OF 2] by metis
  next
    case 3
    have n: "\<not> 0 < d" "\<not> - 10 < d" using 3 by simp_all
    have "bin_distance d = bucket_toward_zero d \<longleftrightarrow> d mod 10 = 0"
      unfolding bin_left[OF 3] spec_left[OF 3] by (rule floor_vs_trunc)
    then show ?thesis by (simp only: n simp_thms)
  qed
qed

text \<open>
  C1. For a neighbor on the right (\<open>d > 5\<close>) and for magnitudes 6 to 9 on either side the
  emitted bucket is the one claimed (\<open>bin_distance_agrees\<close>). For a neighbor on the left
  at distance \<open>d \<le> -10\<close> the floor division rounds away from zero: with a noun at
  position 0, ten determiners and the verb at position 11, the distance is \<open>-11\<close> and
  the distance feature is \<^verbatim>\<open>('N', '<--20', 'V')\<close>, where rounding toward zero gives
  \<open>-10\<close>; at distance \<open>+11\<close> the bucket is 10.
\<close>

theorem left_neighbor_bucket_rounds_away:
  "pos_neighbor_features True
     (\<lparr>token = ''dog'', stem = ''dog'', pos = ''NN'', shape = ''a''\<rparr> #
      replicate 10 \<lparr>token = ''the'', stem = ''the'', pos = ''DT'', shape = ''a''\<rparr> @
      [\<lparr>token = ''run'', stem = ''run'', pos = ''VB'', shape = ''a''\<rparr>]) 11
   = Inr [[''N'', ''<--20'', ''V''], [''N'', ''<'', ''dog'', ''V'']] \<and>
   bin_distance (- 11) = - 20 \<and> bucket_toward_zero (- 11) = - 10 \<and> bin_distance 11 = 10"
proof -
  have 1: "pos_neighbor_features True
     (\<lparr>token = ''dog'', stem = ''dog'', pos = ''NN'', shape = ''a''\<rparr> #
      replicate 10 \<lparr>token = ''the'', stem = ''the'', pos = ''DT'', shape = ''a''\<rparr> @
      [\<lparr>token = ''run'', stem = ''run'', pos = ''VB'', shape = ''a''\<rparr>]) 11
   = Inr [[''N'', ''<--20'', ''V''], [''N'', ''<'', ''dog'', ''V'']]"
    by code_simp
  have 2: "bin_distance (- 11) = - 20 \<and> bucket_toward_zero (- 11) = - 10 \<and> bin_distance 11 = 10"
    by (simp add: bin_distance_def bucket_toward_zero_def)
  from 1 2 show ?thesis by (rule conjI)
qed

section \<open>Properties of the sense-data loaders\<close>

lemma new_file_nonempty: "lns \<noteq> [] \<Longrightarrow> \<exists>e. new_format_file p st lns = Inl e"
  by (cases lns) (auto simp: new_format_line_def Let_def split: sum.splits)

lemma new_file_Inr: "new_format_file p st lns = Inr st' \<Longrightarrow> lns = [] \<and> st' = st"
  using new_file_nonempty[of lns p st] by (cases lns) auto

lemma new_format_never_fills_trie:
  "loadSenseDataNewFormat st nounFile verbFile psFile = Inr st' \<Longrightarrow>
     nounFile = [] \<and> verbFile = [] \<and> g_senseTrie st' = g_senseTrie st \<and>
     g_senseCountMap st' = g_senseCountMap st"
  by (auto simp: loadSenseDataNewFormat_def split: if_splits sum.splits option.splits dest!: new_file_Inr)

text \<open>
  The original-format loader on a noun file and a verb file of one line each: all three
  tables are filled.
\<close>

lemma original_format_fills_tables:
  "case loadSenseDataOriginalFormat lex_init
          [''bank a noun.object b c noun.group d'' @ [CHR 0x0A]]
          [''go_out a verb.motion b'' @ [CHR 0x0A]] of
     Inl e \<Rightarrow> False
   | Inr st \<Rightarrow>
       (case g_senseTrie st of
          None \<Rightarrow> False
        | Some t \<Rightarrow>
            trie_longest t [''bank''] = Inr (Some ([''bank''], [''N'' \<mapsto> ''noun.object''])) \<and>
            trie_longest t [''go'', ''out'', ''now''] =
              Inr (Some ([''go'', ''out''], [''V'' \<mapsto> ''verb.motion'']))) \<and>
       g_senseCountMap st = [(''N'', [([''bank''], 2)]), (''V'', [([''go'', ''out''], 1)])] \<and>
       g_possibleSensesMap st =
         [(''bank'', {''B-noun.group'', ''B-noun.object''}),
          (''go'', {''B-verb.motion''}), (''out'', {''I-verb.motion''})]"
  by (simp add: loadSenseDataOriginalFormat_def lex_init_def original_line_def list_item_def
      is_space_def addMostFrequentSense_def trie_init_def add_possible_def Let_def upt_rec)

text \<open>
  C2. The new-format loader on a noun file of one tab-separated line with \<^verbatim>\<open>key=value\<close>
  fields raises AttributeError at \<^verbatim>\<open>parts[1].indexOf('=')\<close>: no table is filled. It
  returns only when both the noun and the verb file have no line, and then
  \<^verbatim>\<open>senseTrie\<close> and \<^verbatim>\<open>senseCountMap\<close> are what they were
  (\<open>new_format_never_fills_trie\<close>).
\<close>

theorem new_format_load_raises:
  "loadSenseDataNewFormat lex_init
     [''bank'' @ [CHR 0x09] @ ''SS=noun.artifact'' @ [CHR 0x09] @ ''P=x'' @ [CHR 0x09] @ ''N=2'' @ [CHR 0x0A]]
     [] (Some []) = Inl AttributeError"
  by (simp add: loadSenseDataNewFormat_def lex_init_def new_format_line_def list_item_def)

end
